theory Spec2Isabelle
  imports Main "HOL-Library.Sublist"
begin

section \<open>Regular expressions as used by the GTest log parser\<close>

text \<open>
  \<^verbatim>\<open>build/scripts/common/gtest_utils.py\<close> recognises log lines with Python's
  backtracking \<^verbatim>\<open>re\<close> module.  The patterns of the parser only repeat single character
  classes, so the matcher below enumerates, in Python's backtracking order (greedy
  repetition first, an optional part taken before it is skipped), every way a pattern
  can match a prefix of the input.  The first alternative is the match Python reports.
  Characters are bytes, as in a Python 2 \<^verbatim>\<open>str\<close>.
\<close>

datatype cls =
    Space      \<comment> \<open>\<^verbatim>\<open>\s\<close>: space, tab, newline, carriage return, form feed, vertical tab\<close>
  | Digit      \<comment> \<open>\<^verbatim>\<open>\d\<close> and \<^verbatim>\<open>[0-9]\<close>\<close>
  | Word       \<comment> \<open>\<^verbatim>\<open>\w\<close>: letters, digits, underscore\<close>
  | NotQuote   \<comment> \<open>\<^verbatim>\<open>[^"]\<close>\<close>
  | HexUpper   \<comment> \<open>\<^verbatim>\<open>[0-9A-F]\<close>\<close>
  | DigitDot   \<comment> \<open>\<^verbatim>\<open>[0-9\.]\<close>\<close>
  | AnyChar    \<comment> \<open>\<^verbatim>\<open>.\<close>: anything but a newline\<close>

definition is_space :: "char \<Rightarrow> bool" where
  "is_space c = (c \<in> set [CHR '' '', CHR 0x09, CHR 0x0A, CHR 0x0D, CHR 0x0C, CHR 0x0B])"

definition is_digit :: "char \<Rightarrow> bool" where
  "is_digit c = (c \<in> set ''0123456789'')"

definition is_word :: "char \<Rightarrow> bool" where
  "is_word c = (is_digit c \<or> c = CHR ''_''
      \<or> c \<in> set ''abcdefghijklmnopqrstuvwxyz''
      \<or> c \<in> set ''ABCDEFGHIJKLMNOPQRSTUVWXYZ'')"

fun in_cls :: "cls \<Rightarrow> char \<Rightarrow> bool" where
  "in_cls Space c = is_space c"
| "in_cls Digit c = is_digit c"
| "in_cls Word c = is_word c"
| "in_cls NotQuote c = (c \<noteq> CHR 0x22)"
| "in_cls HexUpper c = (is_digit c \<or> c \<in> set ''ABCDEF'')"
| "in_cls DigitDot c = (is_digit c \<or> c = CHR ''.'')"
| "in_cls AnyChar c = (c \<noteq> CHR 0x0A)"

datatype re =
    Eps                \<comment> \<open>the empty pattern\<close>
  | Lit string         \<comment> \<open>literal text\<close>
  | One cls            \<comment> \<open>one character of a class\<close>
  | Star cls           \<comment> \<open>\<^verbatim>\<open>c*\<close>, greedy\<close>
  | Plus cls           \<comment> \<open>\<^verbatim>\<open>c+\<close>, greedy\<close>
  | Opt re             \<comment> \<open>\<^verbatim>\<open>r?\<close>, greedy\<close>
  | Seq re re          \<comment> \<open>concatenation\<close>
  | Grp1 re            \<comment> \<open>capturing group number 1\<close>
  | Grp re             \<comment> \<open>a capturing group whose text the parser never reads\<close>
  | Eol                \<comment> \<open>\<^verbatim>\<open>$\<close>: end of the string, or just before a final newline\<close>

type_synonym alt = "string option \<times> string"
  \<comment> \<open>one way to match: the text of group 1 (if it took part) and the unread input\<close>

fun run :: "re \<Rightarrow> string \<Rightarrow> alt list" where
  "run Eps s = [(None, s)]"
| "run (Lit l) s = (if take (length l) s = l then [(None, drop (length l) s)] else [])"
| "run (One c) s = (case s of [] \<Rightarrow> [] | x # t \<Rightarrow> if in_cls c x then [(None, t)] else [])"
| "run (Star c) s =
     map (\<lambda>n. (None, drop n s)) (rev [0 ..< Suc (length (takeWhile (in_cls c) s))])"
| "run (Plus c) s =
     map (\<lambda>n. (None, drop n s)) (rev [1 ..< Suc (length (takeWhile (in_cls c) s))])"
| "run (Opt r) s = run r s @ [(None, s)]"
| "run (Seq a b) s =
     concat (map (\<lambda>(c1, s1).
        map (\<lambda>(c2, s2). (case c2 of None \<Rightarrow> c1 | Some g \<Rightarrow> Some g, s2)) (run b s1)) (run a s))"
| "run (Grp1 r) s = map (\<lambda>(c, s'). (Some (take (length s - length s') s), s')) (run r s)"
| "run (Grp r) s = run r s"
| "run Eol s = (if s = [] \<or> s = [CHR 0x0A] then [(None, s)] else [])"

definition re_match :: "re \<Rightarrow> string \<Rightarrow> alt option" where
  \<comment> \<open>\<^verbatim>\<open>regexp.match(line)\<close>: anchored at the start of the line\<close>
  "re_match r s = (case run r s of [] \<Rightarrow> None | m # _ \<Rightarrow> Some m)"

fun search_from :: "re \<Rightarrow> string \<Rightarrow> nat \<Rightarrow> (nat \<times> alt) option" where
  "search_from r [] i = (case re_match r [] of None \<Rightarrow> None | Some m \<Rightarrow> Some (i, m))"
| "search_from r (x # t) i =
     (case re_match r (x # t) of None \<Rightarrow> search_from r t (Suc i) | Some m \<Rightarrow> Some (i, m))"

definition re_search :: "re \<Rightarrow> string \<Rightarrow> (nat \<times> alt) option" where
  \<comment> \<open>\<^verbatim>\<open>regexp.search(line)\<close>: the leftmost position with a match, and the match\<close>
  "re_search r s = search_from r s 0"

definition group1 :: "alt \<Rightarrow> string" where
  \<comment> \<open>\<^verbatim>\<open>results.group(1)\<close>; group 1 takes part in every match of the patterns that read it\<close>
  "group1 m = (case fst m of None \<Rightarrow> [] | Some g \<Rightarrow> g)"

definition cat :: "re list \<Rightarrow> re" where
  "cat rs = foldr Seq rs Eps"

subsection \<open>The patterns of \<^verbatim>\<open>GTestLogParser.__init__\<close>\<close>

definition test_name_regexp :: re where
  \<comment> \<open>\<^verbatim>\<open>((\w+/)?\w+\.\w+(/\d+)?)\<close>\<close>
  "test_name_regexp =
     Grp1 (cat [Opt (Grp (cat [Plus Word, Lit ''/''])), Plus Word, Lit ''.'', Plus Word,
                Opt (Grp (cat [Lit ''/'', Plus Digit]))])"

definition master_name_re :: re where
  \<comment> \<open>\<^verbatim>\<open>\[Running for master: "([^"]*)"\<close>\<close>
  "master_name_re =
     cat [Lit ''[Running for master: '', Lit [CHR 0x22], Grp1 (Star NotQuote), Lit [CHR 0x22]]"

definition test_name :: re where
  "test_name = test_name_regexp"

definition test_start :: re where
  \<comment> \<open>\<^verbatim>\<open>\[\s+RUN\s+\] \<close> followed by the test name\<close>
  "test_start = cat [Lit ''['', Plus Space, Lit ''RUN'', Plus Space, Lit ''] '', test_name_regexp]"

definition test_ok :: re where
  \<comment> \<open>\<^verbatim>\<open>\[\s+OK\s+\] \<close> followed by the test name\<close>
  "test_ok = cat [Lit ''['', Plus Space, Lit ''OK'', Plus Space, Lit ''] '', test_name_regexp]"

definition test_fail :: re where
  \<comment> \<open>\<^verbatim>\<open>\[\s+FAILED\s+\] \<close> followed by the test name\<close>
  "test_fail =
     cat [Lit ''['', Plus Space, Lit ''FAILED'', Plus Space, Lit ''] '', test_name_regexp]"

definition test_passed :: re where
  \<comment> \<open>\<^verbatim>\<open>\[\s+PASSED\s+\] \d+ tests?.\<close>\<close>
  "test_passed =
     cat [Lit ''['', Plus Space, Lit ''PASSED'', Plus Space, Lit ''] '', Plus Digit,
          Lit '' test'', Opt (Lit ''s''), One AnyChar]"

definition run_test_cases_line :: re where
  \<comment> \<open>\<^verbatim>\<open>\[\s*\d+\/\d+\]\s+[0-9\.]+s \<close>, the test name, then \<^verbatim>\<open> .+\<close>\<close>
  "run_test_cases_line =
     cat [Lit ''['', Star Space, Plus Digit, Lit ''/'', Plus Digit, Lit '']'', Plus Space,
          Plus DigitDot, Lit ''s '', test_name_regexp, Lit '' '', Plus AnyChar]"

definition test_timeout :: re where
  \<comment> \<open>\<^verbatim>\<open>Test timeout \([0-9]+ ms\) exceeded for \<close> followed by the test name\<close>
  "test_timeout =
     cat [Lit ''Test timeout ('', Plus Digit, Lit '' ms) exceeded for '', test_name_regexp]"

definition disabled :: re where
  \<comment> \<open>\<^verbatim>\<open>\s*YOU HAVE (\d+) DISABLED TEST\<close>\<close>
  "disabled = cat [Star Space, Lit ''YOU HAVE '', Grp1 (Plus Digit), Lit '' DISABLED TEST'']"

definition flaky :: re where
  \<comment> \<open>\<^verbatim>\<open>\s*YOU HAVE (\d+) FLAKY TEST\<close>\<close>
  "flaky = cat [Star Space, Lit ''YOU HAVE '', Grp1 (Plus Digit), Lit '' FLAKY TEST'']"

definition suppression_start :: re where
  \<comment> \<open>\<^verbatim>\<open>Suppression \(error hash=#([0-9A-F]+)#\):\<close>\<close>
  "suppression_start =
     cat [Lit ''Suppression (error hash=#'', Grp1 (Plus HexUpper), Lit ''#):'']"

definition suppression_end :: re where
  \<comment> \<open>\<^verbatim>\<open>^}\s*$\<close>; under \<^verbatim>\<open>match\<close> the leading \<^verbatim>\<open>^\<close> adds nothing\<close>
  "suppression_end = cat [Lit ''}'', Star Space, Eol]"

definition retry_message :: re where
  \<comment> \<open>\<^verbatim>\<open>RETRYING FAILED TESTS:\<close>\<close>
  "retry_message = Lit ''RETRYING FAILED TESTS:''"


section \<open>The GTest log parser (\<^verbatim>\<open>GTestLogParser\<close>)\<close>

subsection \<open>Python values the parser relies on\<close>

datatype py_error = KeyError string | AssertionError string | TypeError string

text \<open>
  The disabled and flaky counts hold ``either text or a number''.  In Python 2
  \<^verbatim>\<open>int(text)\<close> gives an \<^verbatim>\<open>int\<close> up to \<^verbatim>\<open>sys.maxint\<close> and a \<^verbatim>\<open>long\<close> beyond, and
  \<^verbatim>\<open>isinstance(x, int)\<close> is false for a \<^verbatim>\<open>long\<close>; \<^verbatim>\<open>sys.maxint\<close> depends on the platform and
  is a parameter here.
\<close>

datatype count = PyInt int | PyLong int | PyStr string

fun isinstance_int :: "count \<Rightarrow> bool" where
  "isinstance_int (PyInt n) = True"
| "isinstance_int (PyLong n) = False"
| "isinstance_int (PyStr s) = False"

definition digit_val :: "char \<Rightarrow> int" where
  "digit_val c = int (of_char c) - 48"

definition dec_val :: "string \<Rightarrow> int" where
  "dec_val ds = foldl (\<lambda>acc c. 10 * acc + digit_val c) 0 ds"

definition strip :: "string \<Rightarrow> string" where
  \<comment> \<open>\<^verbatim>\<open>str.strip()\<close>\<close>
  "strip s = rev (dropWhile is_space (rev (dropWhile is_space s)))"

definition mk_int :: "int \<Rightarrow> int \<Rightarrow> count" where
  "mk_int maxint n = (if - maxint - 1 \<le> n \<and> n \<le> maxint then PyInt n else PyLong n)"

definition py_int :: "int \<Rightarrow> string \<Rightarrow> count option" where
  \<comment> \<open>\<^verbatim>\<open>int(text)\<close> on a string; \<open>None\<close> is \<^verbatim>\<open>ValueError\<close>\<close>
  "py_int maxint s =
     (let t = strip s;
          sign = (case t of [] \<Rightarrow> 1 | c # r \<Rightarrow> if c = CHR ''-'' then - 1 else (1::int));
          ds = (case t of [] \<Rightarrow> [] | c # r \<Rightarrow> if c = CHR ''-'' \<or> c = CHR ''+'' then r else t)
      in if ds \<noteq> [] \<and> list_all is_digit ds then Some (mk_int maxint (sign * dec_val ds))
         else None)"

function str_nat :: "nat \<Rightarrow> string" where
  \<comment> \<open>\<^verbatim>\<open>'%s' % n\<close> for a non-negative integer\<close>
  "str_nat n =
     (if n < 10 then [char_of (48 + n)] else str_nat (n div 10) @ [char_of (48 + n mod 10)])"
  by pat_completeness auto
termination
  by (relation "measure id") auto

subsection \<open>State\<close>

text \<open>
  The description lists are Python list objects that the parser shares between
  \<^verbatim>\<open>_failure_description\<close> and the entries of \<^verbatim>\<open>_test_status\<close> and extends in place, so
  they live in a store: \<open>heap\<close> maps an address to the lines of the list object there and
  \<open>next_addr\<close> is the first address not yet handed out.
\<close>

type_synonym addr = nat

record parser =
  completed :: bool
  current_test :: string
  failure_description :: addr
  current_suppression_hash :: string
  current_suppression :: "string list"
  parsing_failures :: bool
  line_number :: nat
  internal_error_lines :: "string list"
  test_status :: "string \<rightharpoonup> (string \<times> addr)"
  suppressions :: "string \<rightharpoonup> string list"
  disabled_tests :: count
  flaky_tests :: count
  master_name :: string
  retrying_failed :: bool
  heap :: "addr \<Rightarrow> string list"
  next_addr :: addr

definition init_parser :: parser where
  \<comment> \<open>\<^verbatim>\<open>GTestLogParser.__init__\<close>\<close>
  "init_parser =
     \<lparr> completed = False, current_test = [], failure_description = 0,
       current_suppression_hash = [], current_suppression = [], parsing_failures = False,
       line_number = 0, internal_error_lines = [], test_status = Map.empty,
       suppressions = Map.empty, disabled_tests = PyInt 0, flaky_tests = PyInt 0,
       master_name = [], retrying_failed = False, heap = (\<lambda>a. []), next_addr = 1 \<rparr>"

definition alloc :: "string list \<Rightarrow> parser \<Rightarrow> addr \<times> parser" where
  \<comment> \<open>a list display such as \<^verbatim>\<open>[]\<close> creates a new list object\<close>
  "alloc xs st =
     (next_addr st, st\<lparr>heap := (heap st)(next_addr st := xs), next_addr := Suc (next_addr st)\<rparr>)"

definition heap_extend :: "addr \<Rightarrow> string list \<Rightarrow> parser \<Rightarrow> parser" where
  \<comment> \<open>\<^verbatim>\<open>.extend\<close> and \<^verbatim>\<open>.append\<close>: the list object changes in place\<close>
  "heap_extend a xs st = st\<lparr>heap := (heap st)(a := heap st a @ xs)\<rparr>"

subsection \<open>Queries\<close>


definition priv_StatusOfTest :: "parser \<Rightarrow> string \<Rightarrow> string" where
  \<comment> \<open>\<^verbatim>\<open>_StatusOfTest\<close>\<close>
  "priv_StatusOfTest st test =
     (case test_status st test of None \<Rightarrow> ''not known'' | Some (s, d) \<Rightarrow> s)"

definition DisabledTests :: "parser \<Rightarrow> count" where
  "DisabledTests st = disabled_tests st"

definition FlakyTests :: "parser \<Rightarrow> count" where
  "FlakyTests st = flaky_tests st"

definition FailureDescription :: "parser \<Rightarrow> string \<Rightarrow> string list" where
  \<comment> \<open>\<^verbatim>\<open>['%s: ' % test] + test_status[1]\<close> with the default \<^verbatim>\<open>('', [])\<close>\<close>
  "FailureDescription st test =
     (test @ '': '') # (case test_status st test of None \<Rightarrow> [] | Some (s, d) \<Rightarrow> heap st d)"

definition Suppression :: "parser \<Rightarrow> string \<Rightarrow> string list" where
  "Suppression st h = (case suppressions st h of None \<Rightarrow> [] | Some ls \<Rightarrow> ls)"

definition ParsingErrors :: "parser \<Rightarrow> string list" where
  "ParsingErrors st = internal_error_lines st"

definition priv_RecordError :: "parser \<Rightarrow> string \<Rightarrow> string \<Rightarrow> parser" where
  \<comment> \<open>\<^verbatim>\<open>_RecordError\<close>: \<^verbatim>\<open>'%s: %s [%s]' % (self._line_number, line.strip(), reason)\<close>\<close>
  "priv_RecordError st line reason =
     st\<lparr>internal_error_lines := internal_error_lines st @
          [str_nat (line_number st) @ '': '' @ strip line @ '' ['' @ reason @ '']'']\<rparr>"

subsection \<open>\<^verbatim>\<open>_ProcessLine\<close>, branch by branch\<close>

definition timeout_current_test :: "parser \<Rightarrow> py_error + parser" where
  \<comment> \<open>the block \<^verbatim>\<open>if self._current_test: if self._test_status[self._current_test][0] ==
      'started': self._test_status[self._current_test] = ('timeout',
      self._failure_description)\<close>, which opens both the shard-summary branch and the
      test-start branch\<close>
  "timeout_current_test st =
     (if current_test st \<noteq> [] then
        (case test_status st (current_test st) of
           None \<Rightarrow> Inl (KeyError (current_test st))
         | Some (s, d) \<Rightarrow>
             if s = ''started''
             then Inr (st\<lparr>test_status :=
                          (test_status st)(current_test st \<mapsto> (''timeout'', failure_description st))\<rparr>)
             else Inr st)
      else Inr st)"

definition on_run_test_cases_line :: "parser \<Rightarrow> py_error + parser" where
  "on_run_test_cases_line st =
     (case timeout_current_test st of
        Inl e \<Rightarrow> Inl e
      | Inr st1 \<Rightarrow>
          let (a, st2) = alloc [] (st1\<lparr>current_test := []\<rparr>)
          in Inr (st2\<lparr>failure_description := a\<rparr>))"

definition on_test_passed :: "parser \<Rightarrow> parser" where
  "on_test_passed st = st\<lparr>completed := True, current_test := []\<rparr>"

definition banner_count :: "int \<Rightarrow> string \<Rightarrow> count \<Rightarrow> count" where
  \<comment> \<open>the body shared, word for word, by the disabled and the flaky banner: the count
      parsed by \<^verbatim>\<open>int\<close> (0 on \<^verbatim>\<open>ValueError\<close>) is stored when it is positive and the count
      held so far is an \<^verbatim>\<open>int\<close>; otherwise \<^verbatim>\<open>'some'\<close> is stored\<close>
  "banner_count maxint g old =
     (let n = (case py_int maxint g of None \<Rightarrow> PyInt 0 | Some v \<Rightarrow> v)
      in if 0 < (case n of PyInt i \<Rightarrow> i | PyLong i \<Rightarrow> i | PyStr t \<Rightarrow> 0) \<and> isinstance_int old
         then n else PyStr ''some'')"

definition on_disabled :: "int \<Rightarrow> parser \<Rightarrow> string \<Rightarrow> parser" where
  "on_disabled maxint st g = st\<lparr>disabled_tests := banner_count maxint g (disabled_tests st)\<rparr>"

definition on_flaky :: "int \<Rightarrow> parser \<Rightarrow> string \<Rightarrow> parser" where
  "on_flaky maxint st g = st\<lparr>flaky_tests := banner_count maxint g (flaky_tests st)\<rparr>"

definition record_started :: "string \<Rightarrow> parser \<Rightarrow> py_error + parser" where
  \<comment> \<open>the test-start branch after the stale test has been dealt with, from
      \<^verbatim>\<open>test_name = results.group(1)\<close> on\<close>
  "record_started name st1 =
     (let (a, st2) = alloc [''Did not complete.''] st1;
          st3 = st2\<lparr>test_status := (test_status st2)(name \<mapsto> (''started'', a)),
                    current_test := name\<rparr>
      in if retrying_failed st3 then
           (case test_status st3 name of
              None \<Rightarrow> Inl (KeyError name)
            | Some (s, d) \<Rightarrow>
                Inr (heap_extend d [[], ''RETRY OUTPUT:'', []] (st3\<lparr>failure_description := d\<rparr>)))
         else
           (let (b, st4) = alloc [] st3 in Inr (st4\<lparr>failure_description := b\<rparr>)))"

definition on_test_start :: "parser \<Rightarrow> string \<Rightarrow> py_error + parser" where
  "on_test_start st name =
     (case timeout_current_test st of
        Inl e \<Rightarrow> Inl e
      | Inr st1 \<Rightarrow> record_started name st1)"

definition on_test_ok :: "parser \<Rightarrow> string \<Rightarrow> string \<Rightarrow> parser" where
  "on_test_ok st line name =
     (let status = priv_StatusOfTest st name;
          st1 = (if status \<noteq> ''started''
                 then priv_RecordError st line (''success while in status '' @ status) else st);
          st2 = (if retrying_failed st1
                 then st1\<lparr>test_status :=
                           (test_status st1)(name \<mapsto> (''warning'', failure_description st1))\<rparr>
                 else (let (a, s') = alloc [] st1
                       in s'\<lparr>test_status := (test_status s')(name \<mapsto> (''OK'', a))\<rparr>));
          (b, st3) = alloc [] st2
      in st3\<lparr>failure_description := b, current_test := []\<rparr>)"

definition on_test_fail :: "parser \<Rightarrow> string \<Rightarrow> string \<Rightarrow> parser" where
  "on_test_fail st line name =
     (let status = priv_StatusOfTest st name;
          st1 = (if status \<notin> set [''started'', ''failed'', ''timeout'']
                 then priv_RecordError st line (''failure while in status '' @ status) else st);
          st2 = (if status \<notin> set [''failed'', ''timeout'']
                 then st1\<lparr>test_status :=
                           (test_status st1)(name \<mapsto> (''failed'', failure_description st1))\<rparr>
                 else st1);
          (b, st3) = alloc [] st2
      in st3\<lparr>failure_description := b, current_test := []\<rparr>)"

definition on_test_timeout :: "parser \<Rightarrow> string \<Rightarrow> string \<Rightarrow> parser" where
  "on_test_timeout st line name =
     (let status = priv_StatusOfTest st name;
          st1 = (if status \<notin> set [''started'', ''failed'']
                 then priv_RecordError st line (''timeout while in status '' @ status) else st);
          (a, st2) = alloc (heap st1 (failure_description st1) @ [''Killed (timed out).'']) st1;
          st3 = st2\<lparr>test_status := (test_status st2)(name \<mapsto> (''timeout'', a))\<rparr>;
          (b, st4) = alloc [] st3
      in st4\<lparr>failure_description := b, current_test := []\<rparr>)"

definition on_suppression_start :: "parser \<Rightarrow> string \<Rightarrow> string \<Rightarrow> parser" where
  "on_suppression_start st line h =
     (let st1 = (if h \<in> dom (suppressions st)
                 then priv_RecordError st line ''suppression reported more than once'' else st)
      in st1\<lparr>suppressions := (suppressions st1)(h \<mapsto> []),
              current_suppression_hash := h, current_suppression := [line]\<rparr>)"

definition on_suppression_end :: "parser \<Rightarrow> string \<Rightarrow> parser" where
  "on_suppression_end st line =
     st\<lparr>suppressions :=
          (suppressions st)(current_suppression_hash st \<mapsto> current_suppression st @ [line]),
        current_suppression_hash := [], current_suppression := []\<rparr>"

definition on_random_line :: "parser \<Rightarrow> string \<Rightarrow> parser" where
  \<comment> \<open>the tail of \<^verbatim>\<open>_ProcessLine\<close>, for a line none of the patterns claimed\<close>
  "on_random_line st line =
     (if current_suppression_hash st \<noteq> [] then
        st\<lparr>current_suppression := current_suppression st @ [line]\<rparr>
      else
        (let st1 = (if current_test st \<noteq> []
                    then heap_extend (failure_description st) [line] st else st)
         in if parsing_failures st1 then
              (case re_match test_name line of
                 Some m \<Rightarrow>
                   (if priv_StatusOfTest st1 (group1 m) \<in> set [''not known'', ''OK'']
                    then (let (a, st2) = alloc [''Unknown error, see stdio log.''] st1
                          in st2\<lparr>test_status := (test_status st2)(group1 m \<mapsto> (''failed'', a))\<rparr>)
                    else st1)
               | None \<Rightarrow> st1\<lparr>parsing_failures := False\<rparr>)
            else if take 14 line = ''Failing tests:'' then st1\<lparr>parsing_failures := True\<rparr>
            else st1))"

definition set_master_name :: "parser \<Rightarrow> string \<Rightarrow> parser" where
  \<comment> \<open>\<^verbatim>\<open>if not self.master_name:\<close> and the match of the master-name banner\<close>
  "set_master_name st line =
     (if master_name st = [] then
        (case re_match master_name_re line of
           Some m \<Rightarrow> st\<lparr>master_name := group1 m\<rparr>
         | None \<Rightarrow> st)
      else st)"

definition priv_ProcessLine :: "int \<Rightarrow> parser \<Rightarrow> string \<Rightarrow> py_error + parser" where
  \<comment> \<open>\<^verbatim>\<open>_ProcessLine\<close>: the first pattern that matches decides\<close>
  "priv_ProcessLine maxint st0 line =
     (let st = set_master_name st0 line in
      if re_match run_test_cases_line line \<noteq> None then on_run_test_cases_line st
      else if re_match test_passed line \<noteq> None then Inr (on_test_passed st)
      else
       (case re_match disabled line of
          Some m \<Rightarrow> Inr (on_disabled maxint st (group1 m))
        | None \<Rightarrow>
       (case re_match flaky line of
          Some m \<Rightarrow> Inr (on_flaky maxint st (group1 m))
        | None \<Rightarrow>
       (case re_match test_start line of
          Some m \<Rightarrow> on_test_start st (group1 m)
        | None \<Rightarrow>
       (case re_match test_ok line of
          Some m \<Rightarrow> Inr (on_test_ok st line (group1 m))
        | None \<Rightarrow>
       (case re_match test_fail line of
          Some m \<Rightarrow> Inr (on_test_fail st line (group1 m))
        | None \<Rightarrow>
       (case re_search test_timeout line of
          Some (i, m) \<Rightarrow> Inr (on_test_timeout st line (group1 m))
        | None \<Rightarrow>
       (case re_match suppression_start line of
          Some m \<Rightarrow> Inr (on_suppression_start st line (group1 m))
        | None \<Rightarrow>
          if re_match suppression_end line \<noteq> None \<and> current_suppression_hash st \<noteq> []
          then Inr (on_suppression_end st line)
          else if re_match retry_message line \<noteq> None then Inr (st\<lparr>retrying_failed := True\<rparr>)
          else Inr (on_random_line st line)))))))))"

subsection \<open>\<^verbatim>\<open>ProcessLine\<close>: repair of interleaved output\<close>

definition gtest_regexps :: "re list" where
  "gtest_regexps = [test_start, test_ok, test_fail, test_passed]"

fun first_search :: "re list \<Rightarrow> string \<Rightarrow> nat option" where
  \<comment> \<open>the \<^verbatim>\<open>for regexp in gtest_regexps\<close> loop: the start of the match of the first pattern
      found anywhere in the line\<close>
  "first_search [] line = None"
| "first_search (r # rs) line =
     (case re_search r line of Some (i, m) \<Rightarrow> Some i | None \<Rightarrow> first_search rs line)"

definition ProcessLine :: "int \<Rightarrow> parser \<Rightarrow> string \<Rightarrow> py_error + parser" where
  "ProcessLine maxint st0 line =
     (let st = st0\<lparr>line_number := line_number st0 + 1\<rparr> in
      case first_search gtest_regexps line of
        None \<Rightarrow> priv_ProcessLine maxint st line
      | Some i \<Rightarrow>
          if i = 0 then priv_ProcessLine maxint st line
          else (case priv_ProcessLine maxint st (take i line) of
                  Inl e \<Rightarrow> Inl e
                | Inr st1 \<Rightarrow> priv_ProcessLine maxint st1 (drop i line)))"

fun ProcessLines :: "int \<Rightarrow> parser \<Rightarrow> string list \<Rightarrow> py_error + parser" where
  \<comment> \<open>``This is called once with each line of the test log.''\<close>
  "ProcessLines maxint st [] = Inr st"
| "ProcessLines maxint st (l # ls) =
     (case ProcessLine maxint st l of Inl e \<Rightarrow> Inl e | Inr st1 \<Rightarrow> ProcessLines maxint st1 ls)"

section \<open>Step execution (\<^verbatim>\<open>build/scripts/slave/annotated_run.py\<close>)\<close>

subsection \<open>Objects held by reference\<close>

text \<open>
  The logs of a \<^verbatim>\<open>StepPresentation\<close> are \<^verbatim>\<open>OrderedDict\<close> objects from a log name to a list
  of lines.  Callers get references to them, so both kinds of object live in a store.  An
  \<^verbatim>\<open>OrderedDict\<close> is the list of its items in insertion order.
\<close>

record store =
  dict_objs :: "addr \<Rightarrow> (string \<times> addr) list"
  list_objs :: "addr \<Rightarrow> string list"
  next_dict :: addr
  next_list :: addr

definition empty_store :: store where
  "empty_store = \<lparr> dict_objs = (\<lambda>a. []), list_objs = (\<lambda>a. []), next_dict = 0, next_list = 0 \<rparr>"

definition new_list :: "string list \<Rightarrow> store \<Rightarrow> addr \<times> store" where
  "new_list xs st =
     (next_list st, st\<lparr>list_objs := (list_objs st)(next_list st := xs), next_list := Suc (next_list st)\<rparr>)"

definition new_dict :: "(string \<times> addr) list \<Rightarrow> store \<Rightarrow> addr \<times> store" where
  "new_dict items st =
     (next_dict st, st\<lparr>dict_objs := (dict_objs st)(next_dict st := items), next_dict := Suc (next_dict st)\<rparr>)"

fun od_set :: "'k \<Rightarrow> 'v \<Rightarrow> ('k \<times> 'v) list \<Rightarrow> ('k \<times> 'v) list" where
  \<comment> \<open>\<^verbatim>\<open>d[k] = v\<close> on an \<^verbatim>\<open>OrderedDict\<close>: a known key keeps its place, a new key goes last\<close>
  "od_set k v [] = [(k, v)]"
| "od_set k v ((k', v') # xs) = (if k' = k then (k, v) # xs else (k', v') # od_set k v xs)"

definition od_del :: "'k \<Rightarrow> ('k \<times> 'v) list \<Rightarrow> ('k \<times> 'v) list" where
  "od_del k xs = filter (\<lambda>(k', v). k' \<noteq> k) xs"

fun deepcopy_items ::
  "(addr \<times> addr) list \<Rightarrow> (string \<times> addr) list \<Rightarrow> store \<Rightarrow> (string \<times> addr) list \<times> store" where
  \<comment> \<open>the items of \<^verbatim>\<open>copy.deepcopy\<close> of a dictionary of lists; \<open>memo\<close> maps every list already
      copied to its copy, so that lists shared in the original are shared in the copy\<close>
  "deepcopy_items memo [] st = ([], st)"
| "deepcopy_items memo ((k, a) # rest) st =
     (case map_of memo a of
        Some a' \<Rightarrow>
          (let (items, st') = deepcopy_items memo rest st in ((k, a') # items, st'))
      | None \<Rightarrow>
          (let (a', st1) = new_list (list_objs st a) st;
               (items, st2) = deepcopy_items ((a, a') # memo) rest st1
           in ((k, a') # items, st2)))"

definition deepcopy :: "addr \<Rightarrow> store \<Rightarrow> addr \<times> store" where
  "deepcopy d st = (let (items, st1) = deepcopy_items [] (dict_objs st d) st in new_dict items st1)"

subsection \<open>\<^verbatim>\<open>StepPresentation\<close>\<close>

record presentation =
  finalized :: bool
  logs_ref :: addr
  perf_logs_ref :: addr
  status :: "string option"
  step_summary_text :: "string option"
  step_text :: "string option"

definition STATUSES :: "string set" where
  "STATUSES = {''SUCCESS'', ''FAILURE'', ''WARNING'', ''EXCEPTION''}"

definition StepPresentation :: "store \<Rightarrow> presentation \<times> store" where
  \<comment> \<open>\<^verbatim>\<open>StepPresentation.__init__\<close>\<close>
  "StepPresentation st =
     (let (l, st1) = new_dict [] st; (pl, st2) = new_dict [] st1
      in (\<lparr> finalized = False, logs_ref = l, perf_logs_ref = pl, status = None,
             step_summary_text = None, step_text = None \<rparr>, st2))"

definition set_status :: "presentation \<Rightarrow> string \<Rightarrow> py_error + presentation" where
  "set_status p val =
     (if finalized p then Inl (AssertionError ''not self._finalized'')
      else if val \<notin> STATUSES then Inl (AssertionError ''val in self.STATUSES'')
      else Inr (p\<lparr>status := Some val\<rparr>))"

definition set_step_text :: "presentation \<Rightarrow> string \<Rightarrow> py_error + presentation" where
  "set_step_text p val =
     (if finalized p then Inl (AssertionError ''not self._finalized'')
      else Inr (p\<lparr>step_text := Some val\<rparr>))"

definition set_step_summary_text :: "presentation \<Rightarrow> string \<Rightarrow> py_error + presentation" where
  "set_step_summary_text p val =
     (if finalized p then Inl (AssertionError ''not self._finalized'')
      else Inr (p\<lparr>step_summary_text := Some val\<rparr>))"

definition logs :: "presentation \<Rightarrow> store \<Rightarrow> addr \<times> store" where
  \<comment> \<open>the \<^verbatim>\<open>logs\<close> property: the dictionary itself, or a deep copy once finalized\<close>
  "logs p st = (if \<not> finalized p then (logs_ref p, st) else deepcopy (logs_ref p) st)"

definition perf_logs :: "presentation \<Rightarrow> store \<Rightarrow> addr \<times> store" where
  "perf_logs p st = (if \<not> finalized p then (perf_logs_ref p, st) else deepcopy (perf_logs_ref p) st)"

datatype event =
    StepCursor string
  | Emit string
  | StepText string
  | StepSummaryText string
  | WriteLogLines string "string list" bool
  | StepWarnings
  | StepFailure
  | StepException

definition finalize :: "presentation \<Rightarrow> store \<Rightarrow> presentation \<times> store \<times> event list" where
  \<comment> \<open>\<^verbatim>\<open>finalize(annotator_step)\<close>; the calls made on \<^verbatim>\<open>annotator_step\<close> are returned in order\<close>
  "finalize p0 st =
     (let p = p0\<lparr>finalized := True\<rparr>;
          e1 = (case step_text p of None \<Rightarrow> [] | Some t \<Rightarrow> if t \<noteq> [] then [StepText t] else []);
          e2 = (case step_summary_text p of
                  None \<Rightarrow> [] | Some t \<Rightarrow> if t \<noteq> [] then [StepSummaryText t] else []);
          (l, st1) = logs p st;
          e3 = map (\<lambda>(n, a). WriteLogLines n (list_objs st1 a) False) (dict_objs st1 l);
          (pl, st2) = perf_logs p st1;
          e4 = map (\<lambda>(n, a). WriteLogLines n (list_objs st2 a) True) (dict_objs st2 pl);
          e5 = (if status p = Some ''WARNING'' then [StepWarnings]
                else if status p = Some ''FAILURE'' then [StepFailure]
                else if status p = Some ''EXCEPTION'' then [StepException]
                else [])
      in (p, st2, e1 @ e2 @ e3 @ e4 @ e5))"

text \<open>What a caller can do with the dictionary that \<^verbatim>\<open>logs\<close> or \<^verbatim>\<open>perf_logs\<close> returned.\<close>

datatype mutation =
    MSetItem string "string list"   \<comment> \<open>\<^verbatim>\<open>d[name] = [line, ...]\<close>\<close>
  | MDelItem string                 \<comment> \<open>\<^verbatim>\<open>del d[name]\<close>\<close>
  | MAppend string string           \<comment> \<open>\<^verbatim>\<open>d[name].append(line)\<close>\<close>
  | MClear                          \<comment> \<open>\<^verbatim>\<open>d.clear()\<close>\<close>

fun mutate :: "addr \<Rightarrow> mutation \<Rightarrow> store \<Rightarrow> py_error + store" where
  "mutate d (MSetItem k ls) st =
     (let (a, st1) = new_list ls st
      in Inr (st1\<lparr>dict_objs := (dict_objs st1)(d := od_set k a (dict_objs st1 d))\<rparr>))"
| "mutate d (MDelItem k) st =
     (case map_of (dict_objs st d) k of
        None \<Rightarrow> Inl (KeyError k)
      | Some a \<Rightarrow> Inr (st\<lparr>dict_objs := (dict_objs st)(d := od_del k (dict_objs st d))\<rparr>))"
| "mutate d (MAppend k l) st =
     (case map_of (dict_objs st d) k of
        None \<Rightarrow> Inl (KeyError k)
      | Some a \<Rightarrow> Inr (st\<lparr>list_objs := (list_objs st)(a := list_objs st a @ [l])\<rparr>))"
| "mutate d MClear st = Inr (st\<lparr>dict_objs := (dict_objs st)(d := [])\<rparr>)"

fun mutate_all :: "addr \<Rightarrow> mutation list \<Rightarrow> store \<Rightarrow> store" where
  \<comment> \<open>a series of attempts; one that raises leaves the store as it was\<close>
  "mutate_all d [] st = st"
| "mutate_all d (m # ms) st =
     mutate_all d ms (case mutate d m st of Inl e \<Rightarrow> st | Inr st' \<Rightarrow> st')"

definition contents :: "store \<Rightarrow> addr \<Rightarrow> (string \<times> string list) list" where
  \<comment> \<open>what a dictionary of logs holds: every name with its lines\<close>
  "contents st d = map (\<lambda>(k, a). (k, list_objs st a)) (dict_objs st d)"

subsection \<open>Steps\<close>

text \<open>
  A step is a dictionary built by recipe code.  Its follow-up function and the
  placeholders of its command come from outside this file (\<^verbatim>\<open>recipe_api\<close>); what they can
  do to the presentation they are handed is a list of calls on its interface.
\<close>

datatype pres_op =
    SetStatus string
  | SetStepText string
  | SetStepSummaryText string
  | SetLog string "string list"       \<comment> \<open>\<^verbatim>\<open>presentation.logs[name] = lines\<close>\<close>
  | SetPerfLog string "string list"   \<comment> \<open>\<^verbatim>\<open>presentation.perf_logs[name] = lines\<close>\<close>

record placeholder =
  ph_api :: string                    \<comment> \<open>the module the placeholder belongs to\<close>
  ph_render :: "string list"          \<comment> \<open>\<^verbatim>\<open>item.render(tdata)\<close>\<close>
  ph_step_finished :: "pres_op list"  \<comment> \<open>\<^verbatim>\<open>placeholder.step_finished(presentation, ...)\<close>\<close>

datatype cmd_item = Tok string | Ph placeholder

record step =
  name :: string
  cmd :: "cmd_item list"
  seed_steps :: "string list option"      \<comment> \<open>\<open>None\<close>: the key is absent\<close>
  followup_fn :: "pres_op list option"    \<comment> \<open>\<open>None\<close>: the key is absent\<close>

subsection \<open>The step sequencer\<close>

text \<open>
  The step dictionaries are objects that \<^verbatim>\<open>fixup_seed_steps\<close> writes to in place, and one
  dictionary may occur at several places of a sequence, or in several sequences.  They live
  in a store of their own: a sequence holds the addresses of its steps.
\<close>

type_synonym step_heap = "addr \<Rightarrow> step"

datatype seq_item = Leaf addr | Nested "seq_item list"
  \<comment> \<open>an element of a sequence: a step dictionary, or a sequence again\<close>

datatype source =
    Single addr                 \<comment> \<open>a step dictionary\<close>
  | Sequence "seq_item list"    \<comment> \<open>a sequence of steps and sequences\<close>
  | Generator "source list"     \<comment> \<open>a generator, given by the items it yields\<close>
  | Invalid                     \<comment> \<open>anything else\<close>

fun flattened :: "seq_item list \<Rightarrow> addr list" where
  "flattened [] = []"
| "flattened (Nested sub # rest) = flattened sub @ flattened rest"
| "flattened (Leaf a # rest) = a # flattened rest"

fun fixup_loop :: "(addr \<times> string list) option \<Rightarrow> addr list \<Rightarrow> step_heap \<Rightarrow> step_heap" where
  \<comment> \<open>the \<^verbatim>\<open>for\<close> loop of \<^verbatim>\<open>fixup_seed_steps\<close>.  \<open>seed\<close> is \<^verbatim>\<open>seed_steps\<close>: \<open>None\<close>, or the
      lines of the list being filled together with the dictionary whose \<^verbatim>\<open>'seed_steps'\<close> key
      holds that same list object, so that an \<^verbatim>\<open>append\<close> shows in the dictionary\<close>
  "fixup_loop seed [] h = h"
| "fixup_loop seed (a # rest) h =
     (case (case seed of None \<Rightarrow> None | Some (j, l) \<Rightarrow> if l = [] then None else Some (j, l)) of
        None \<Rightarrow>
          (if seed_steps (h a) \<noteq> None then h
           else (let h1 = h(a := (h a)\<lparr>seed_steps := Some []\<rparr>);
                     l = [name (h1 a)]
                 in fixup_loop (Some (a, l)) rest (h1(a := (h1 a)\<lparr>seed_steps := Some l\<rparr>))))
      | Some (j, l) \<Rightarrow>
          (let l' = l @ [name (h a)]
           in fixup_loop (Some (j, l')) rest (h(j := (h j)\<lparr>seed_steps := Some l'\<rparr>))))"

definition fixup_seed_steps :: "addr list \<Rightarrow> step_heap \<Rightarrow> addr list \<times> step_heap" where
  \<comment> \<open>``Returns the sequence for convenience.''\<close>
  "fixup_seed_steps sequence h = (sequence, fixup_loop None sequence h)"

text \<open>
  A yielded step is given as the object it is together with the content that object has at
  the moment it is yielded.  The list of a sequence is flattened and fixed up as a whole
  before its first step is yielded; the items of a generator are taken one after the other.
\<close>

fun ensure_sequence_of_steps ::
    "source \<Rightarrow> step_heap \<Rightarrow> (addr \<times> step) list \<times> py_error option \<times> step_heap"
  and ensure_each ::
    "source list \<Rightarrow> step_heap \<Rightarrow> (addr \<times> step) list \<times> py_error option \<times> step_heap" where
  \<comment> \<open>the steps the generator yields, the error it then raises, if any, and the store it
      leaves\<close>
  "ensure_sequence_of_steps (Single a) h = ([(a, h a)], None, h)"
| "ensure_sequence_of_steps (Sequence xs) h =
     (let (ss, h') = fixup_seed_steps (flattened xs) h
      in (map (\<lambda>a. (a, h' a)) ss, None, h'))"
| "ensure_sequence_of_steps (Generator ys) h = ensure_each ys h"
| "ensure_sequence_of_steps Invalid h =
     ([], Some (AssertionError ''Item is not a sequence or a step''), h)"
| "ensure_each [] h = ([], None, h)"
| "ensure_each (y # ys) h =
     (case ensure_sequence_of_steps y h of
        (out, Some e, h1) \<Rightarrow> (out, Some e, h1)
      | (out, None, h1) \<Rightarrow> (let (out', e, h2) = ensure_each ys h1 in (out @ out', e, h2)))"

text \<open>
  The specification's wording, for comparison: the leaf steps in the order of a
  depth-first, left-to-right traversal; and the tag of a sequence, synthesized on its first
  step, if that step lacks one, as the ordered list of every step name in the sequence.
\<close>

fun dfs_item :: "seq_item \<Rightarrow> addr list" where
  "dfs_item (Leaf a) = [a]"
| "dfs_item (Nested xs) = concat (map dfs_item xs)"

fun dfs_leaves :: "source \<Rightarrow> addr list" where
  "dfs_leaves (Single a) = [a]"
| "dfs_leaves (Sequence xs) = concat (map dfs_item xs)"
| "dfs_leaves (Generator ys) = concat (map dfs_leaves ys)"
| "dfs_leaves Invalid = []"

definition synthesize_tag :: "addr list \<Rightarrow> step_heap \<Rightarrow> step_heap" where
  "synthesize_tag sequence h =
     (case sequence of
        [] \<Rightarrow> h
      | a # rest \<Rightarrow>
          if seed_steps (h a) = None
          then h(a := (h a)\<lparr>seed_steps := Some (map (\<lambda>b. name (h b)) sequence)\<rparr>)
          else h)"

fun valid_source :: "source \<Rightarrow> bool" where
  \<comment> \<open>a step, a sequence, or a generator of these\<close>
  "valid_source (Single a) = True"
| "valid_source (Sequence xs) = True"
| "valid_source (Generator ys) = list_all valid_source ys"
| "valid_source Invalid = False"

definition untagged :: "step \<Rightarrow> step" where
  "untagged s = s\<lparr>seed_steps := None\<rparr>"

subsection \<open>Running a step\<close>

record step_data =
  step_of :: step
  retcode :: int
  presentation :: presentation
  additions :: "string list"   \<comment> \<open>the modules whose placeholders left an attribute\<close>

record run_state =
  step_history :: "(string \<times> step_data) list"
  objects :: store
  failed :: bool
  events :: "event list"

definition str_int :: "int \<Rightarrow> string" where
  "str_int i = (if i < 0 then ''-'' @ str_nat (nat (- i)) else str_nat (nat i))"

fun apply_pres_op :: "pres_op \<Rightarrow> presentation \<times> store \<Rightarrow> py_error + presentation \<times> store" where
  "apply_pres_op (SetStatus v) (p, st) =
     (case set_status p v of Inl e \<Rightarrow> Inl e | Inr p' \<Rightarrow> Inr (p', st))"
| "apply_pres_op (SetStepText v) (p, st) =
     (case set_step_text p v of Inl e \<Rightarrow> Inl e | Inr p' \<Rightarrow> Inr (p', st))"
| "apply_pres_op (SetStepSummaryText v) (p, st) =
     (case set_step_summary_text p v of Inl e \<Rightarrow> Inl e | Inr p' \<Rightarrow> Inr (p', st))"
| "apply_pres_op (SetLog k ls) (p, st) =
     (let (d, st1) = logs p st in
      case mutate d (MSetItem k ls) st1 of Inl e \<Rightarrow> Inl e | Inr st2 \<Rightarrow> Inr (p, st2))"
| "apply_pres_op (SetPerfLog k ls) (p, st) =
     (let (d, st1) = perf_logs p st in
      case mutate d (MSetItem k ls) st1 of Inl e \<Rightarrow> Inl e | Inr st2 \<Rightarrow> Inr (p, st2))"

fun apply_pres_ops ::
  "pres_op list \<Rightarrow> presentation \<times> store \<Rightarrow> py_error option \<times> presentation \<times> store" where
  \<comment> \<open>the calls in order; at the first that raises, the error and the state reached\<close>
  "apply_pres_ops [] ps = (None, ps)"
| "apply_pres_ops (x # xs) ps =
     (case apply_pres_op x ps of Inl e \<Rightarrow> (Some e, ps) | Inr ps' \<Rightarrow> apply_pres_ops xs ps')"

fun group_placeholders ::
  "cmd_item list \<Rightarrow> (string \<times> placeholder list) list \<Rightarrow> (string \<times> placeholder list) list" where
  "group_placeholders [] acc = acc"
| "group_placeholders (Tok t # rest) acc = group_placeholders rest acc"
| "group_placeholders (Ph p # rest) acc =
     group_placeholders rest
       (od_set (ph_api p) ((case map_of acc (ph_api p) of None \<Rightarrow> [] | Some ps \<Rightarrow> ps) @ [p]) acc)"

definition render_step :: "step \<Rightarrow> step \<times> (string \<times> placeholder list) list" where
  \<comment> \<open>\<^verbatim>\<open>render_step\<close>: the step with its command rendered, and the placeholders by module\<close>
  "render_step s =
     (s\<lparr>cmd := map Tok (concat (map (\<lambda>i. case i of Tok t \<Rightarrow> [t] | Ph p \<Rightarrow> ph_render p) (cmd s)))\<rparr>,
      group_placeholders (cmd s) [])"

definition step_callback ::
  "bool \<Rightarrow> step \<Rightarrow> (string \<times> placeholder list) list \<Rightarrow> int \<Rightarrow> run_state
     \<Rightarrow> py_error option \<times> run_state" where
  \<comment> \<open>\<^verbatim>\<open>step_callback\<close> and the \<^verbatim>\<open>_inner\<close> it returns, called with the return code of the
      step.  \<open>test_mode\<close> is \<^verbatim>\<open>test_data_item is not None\<close>.  The history holds the result
      object from the moment it is stored; here its entry is written with the state the object
      has when \<^verbatim>\<open>_inner\<close> returns or raises.\<close>
  "step_callback test_mode step0 placeholders rc rs =
     (let followup = followup_fn step0;
          s = step0\<lparr>followup_fn := None\<rparr>;
          (p0, st0) = StepPresentation (objects rs);
          (e1, p1) = (if rc > 0
                      then (case set_status p0 ''FAILURE'' of
                              Inl e \<Rightarrow> (Some e, p0) | Inr p \<Rightarrow> (None, p))
                      else (None, p0));
          ev = StepCursor (name s) #
               (if test_mode then []
                else [Emit (''step returned non-zero exit code: '' @ str_int rc)]);
          result = (\<lambda>p adds. \<lparr> step_of = s, retcode = rc, presentation = p, additions = adds \<rparr>);
          finish = (\<lambda>e p adds st evs.
                      (e, rs\<lparr>step_history := od_set (name s) (result p adds) (step_history rs),
                              objects := st, events := events rs @ evs\<rparr>))
      in case e1 of
           Some e \<Rightarrow> (Some e, rs\<lparr>objects := st0\<rparr>)
         | None \<Rightarrow>
       (case apply_pres_ops (concat (map ph_step_finished (concat (map snd placeholders))))
               (p1, st0) of
           (Some e, p2, st2) \<Rightarrow> finish (Some e) p2 [] st2 ev
         | (None, p2, st2) \<Rightarrow>
       (case apply_pres_ops (case followup of None \<Rightarrow> [] | Some ops \<Rightarrow> ops) (p2, st2) of
           (Some e, p3, st3) \<Rightarrow> finish (Some e) p3 (map fst placeholders) st3 ev
         | (None, p3, st3) \<Rightarrow>
             (let (p4, st4, fev) = finalize p3 st3
              in finish None p4 (map fst placeholders) st4 (ev @ fev)))))"

subsection \<open>The orchestration loop of \<^verbatim>\<open>run_steps\<close>\<close>

text \<open>
  What lies outside this file is a parameter: \<open>exec\<close> is the return code with which
  \<^verbatim>\<open>annotator.run_step\<close> calls the callback of a step, and \<open>ubf\<close> is
  \<^verbatim>\<open>annotator.update_build_failure\<close>.  Test data maps a step name to its canned return code
  \<^verbatim>\<open>'$R'\<close>, if it gives one.
\<close>

type_synonym test_data = "(string \<times> int option) list"

definition dup_msg :: "string \<Rightarrow> string" where
  "dup_msg n = ''Step '' @ [CHR 0x22] @ n @ [CHR 0x22] @ '' is already in step_history!''"

fun run_loop ::
  "(step \<Rightarrow> int) \<Rightarrow> (bool \<Rightarrow> int \<Rightarrow> step \<Rightarrow> bool) \<Rightarrow> test_data option \<Rightarrow> run_state
     \<Rightarrow> step list \<Rightarrow> py_error option \<times> test_data option \<times> run_state" where
  \<comment> \<open>the body of \<^verbatim>\<open>for step in ensure_sequence_of_steps(steps)\<close>\<close>
  "run_loop exec ubf td rs [] = (None, td, rs)"
| "run_loop exec ubf td rs (step0 # rest) =
     (let item = (case td of None \<Rightarrow> None
                  | Some d \<Rightarrow> Some (case map_of d (name step0) of None \<Rightarrow> None | Some r \<Rightarrow> r));
          td' = (case td of None \<Rightarrow> None | Some d \<Rightarrow> Some (od_del (name step0) d));
          (s, placeholders) = render_step step0
      in if name s \<in> fst ` set (step_history rs)
         then (Some (AssertionError (dup_msg (name s))), td', rs)
         else
           (let rc = (case item of None \<Rightarrow> exec s
                      | Some r \<Rightarrow> (case r of None \<Rightarrow> 0 | Some c \<Rightarrow> c))
            in case step_callback (item \<noteq> None) s placeholders rc rs of
                 (Some e, rs1) \<Rightarrow> (Some e, td', rs1)
               | (None, rs1) \<Rightarrow>
                   run_loop exec ubf td' (rs1\<lparr>failed := ubf (failed rs1) rc s\<rparr>) rest))"

definition new_run :: run_state where
  "new_run = \<lparr> step_history = [], objects = empty_store, failed = False, events = [] \<rparr>"

definition run_steps ::
  "(step \<Rightarrow> int) \<Rightarrow> (bool \<Rightarrow> int \<Rightarrow> step \<Rightarrow> bool) \<Rightarrow> test_data option \<Rightarrow> source
     \<Rightarrow> step_heap \<Rightarrow> py_error + int \<times> (string \<times> step_data) list" where
  \<comment> \<open>\<^verbatim>\<open>run_steps\<close> from the loop on, for the steps that \<^verbatim>\<open>GenSteps\<close> produced.  The loop
      body works on the content a step has when it is yielded; what the body writes to the
      dictionary (the rendered command, the removed follow-up) shows again only if the same
      dictionary is yielded once more, and then the step name is in the history and the
      assertion ends the run.\<close>
  "run_steps exec ubf td steps h =
     (let (out, gen_error, h') = ensure_sequence_of_steps steps h in
      case run_loop exec ubf td new_run (map snd out) of
        (Some e, td', rs) \<Rightarrow> Inl e
      | (None, td', rs) \<Rightarrow>
          (case gen_error of
             Some e \<Rightarrow> Inl e
           | None \<Rightarrow>
               if td' \<noteq> None \<and> td' \<noteq> Some [] then Inl (AssertionError ''Unconsumed test data!'')
               else Inr (if \<not> failed rs then 0 else 1, step_history rs)))"

text \<open>
  Modelled from the spec: the class of the step history with its \<^verbatim>\<open>last_step\<close> and
  \<^verbatim>\<open>nth_step\<close> queries is not part of the sources (\<^verbatim>\<open>run_steps\<close> creates a plain
  \<^verbatim>\<open>OrderedDict\<close>).  The module documentation describes them: \<^verbatim>\<open>last_step\<close> ``returns the
  last step that ran or None'', \<^verbatim>\<open>nth_step(n)\<close> ``returns the N'th step that ran or None''.
\<close>

definition last_step :: "(string \<times> step_data) list \<Rightarrow> step_data option" where
  "last_step h = (if h = [] then None else Some (snd (last h)))"

definition nth_step :: "(string \<times> step_data) list \<Rightarrow> nat \<Rightarrow> step_data option" where
  "nth_step h n = (if n < length h then Some (snd (h ! n)) else None)"

section \<open>The property bag (\<^verbatim>\<open>recipe_modules/properties/api.py\<close>)\<close>

text \<open>
  Property values are what JSON gives (\<^verbatim>\<open>None\<close>, booleans, integers, strings, lists,
  dictionaries with string keys) and what \<^verbatim>\<open>freeze\<close> makes of them (tuples,
  \<^verbatim>\<open>ImmutibleMapping\<close>); a set stands for the values \<^verbatim>\<open>freeze\<close> does not support.  A
  dictionary is the list of its items; its keys are distinct.
\<close>

datatype pyval =
    PNone
  | PBool bool
  | PInt int
  | PStr string
  | PList "pyval list"
  | PTuple "pyval list"
  | PDict "(string \<times> pyval) list"
  | PImm "(string \<times> pyval) list"    \<comment> \<open>an \<^verbatim>\<open>ImmutibleMapping\<close>\<close>
  | PSet "pyval list"

fun isinstance_Hashable :: "pyval \<Rightarrow> bool" where
  \<comment> \<open>\<^verbatim>\<open>isinstance(v, collections.Hashable)\<close>: whether the class of \<open>v\<close> has a
      \<^verbatim>\<open>__hash__\<close> method.  \<^verbatim>\<open>list\<close>, \<^verbatim>\<open>dict\<close> and \<^verbatim>\<open>set\<close> set \<^verbatim>\<open>__hash__\<close> to \<^verbatim>\<open>None\<close>;
      \<^verbatim>\<open>ImmutibleMapping\<close> derives from \<^verbatim>\<open>dict\<close> and defines no \<^verbatim>\<open>__hash__\<close> of its own, so it
      inherits that \<^verbatim>\<open>None\<close>.  A tuple has the method whatever it contains.\<close>
  "isinstance_Hashable PNone = True"
| "isinstance_Hashable (PBool b) = True"
| "isinstance_Hashable (PInt i) = True"
| "isinstance_Hashable (PStr s) = True"
| "isinstance_Hashable (PList xs) = False"
| "isinstance_Hashable (PTuple xs) = True"
| "isinstance_Hashable (PDict d) = False"
| "isinstance_Hashable (PImm d) = False"
| "isinstance_Hashable (PSet xs) = False"

fun hashable :: "pyval \<Rightarrow> bool" where
  \<comment> \<open>whether \<^verbatim>\<open>hash(v)\<close> returns a number: the hash of a tuple is computed from the hashes
      of its elements, and a value whose class has \<^verbatim>\<open>__hash__\<close> set to \<^verbatim>\<open>None\<close> has none\<close>
  "hashable PNone = True"
| "hashable (PBool b) = True"
| "hashable (PInt i) = True"
| "hashable (PStr s) = True"
| "hashable (PList xs) = False"
| "hashable (PTuple xs) = list_all hashable xs"
| "hashable (PDict d) = False"
| "hashable (PImm d) = False"
| "hashable (PSet xs) = False"

definition dict_of_items :: "('k \<times> 'v) list \<Rightarrow> ('k \<times> 'v) list" where
  \<comment> \<open>\<^verbatim>\<open>dict(pairs)\<close>\<close>
  "dict_of_items ps = fold (\<lambda>(k, v). od_set k v) ps []"

definition ImmutibleMapping :: "(string \<times> pyval) list \<Rightarrow> py_error + pyval" where
  \<comment> \<open>\<^verbatim>\<open>ImmutibleMapping.__init__(data)\<close>\<close>
  "ImmutibleMapping data =
     (let d = dict_of_items data
      in if list_all (\<lambda>(k, v). isinstance_Hashable v) d then Inr (PImm d)
         else Inl (AssertionError ''all(isinstance(v, collections.Hashable) ...)''))"

definition ImmutibleMapping_setitem :: "pyval \<Rightarrow> string \<Rightarrow> pyval \<Rightarrow> py_error + pyval" where
  "ImmutibleMapping_setitem m key v = Inl (TypeError ''May not modify an ImmutibleMapping'')"

definition ImmutibleMapping_delitem :: "pyval \<Rightarrow> string \<Rightarrow> py_error + pyval" where
  "ImmutibleMapping_delitem m key = Inl (TypeError ''May not modify an ImmutibleMapping'')"

fun freeze :: "pyval \<Rightarrow> py_error + pyval"
  and freeze_items :: "(string \<times> pyval) list \<Rightarrow> py_error + (string \<times> pyval) list"
  and freeze_each :: "pyval list \<Rightarrow> py_error + pyval list" where
  "freeze (PDict d) =
     (case freeze_items d of Inl e \<Rightarrow> Inl e | Inr fd \<Rightarrow> ImmutibleMapping fd)"
| "freeze (PImm d) =
     (case freeze_items d of Inl e \<Rightarrow> Inl e | Inr fd \<Rightarrow> ImmutibleMapping fd)"
| "freeze (PList xs) =
     (case freeze_each xs of Inl e \<Rightarrow> Inl e | Inr fs \<Rightarrow> Inr (PTuple fs))"
| "freeze PNone = Inr PNone"
| "freeze (PBool b) = Inr (PBool b)"
| "freeze (PInt i) = Inr (PInt i)"
| "freeze (PStr s) = Inr (PStr s)"
| "freeze (PTuple xs) = Inr (PTuple xs)"
| "freeze (PSet xs) = Inl (TypeError ''Unsupported value'')"
| "freeze_items [] = Inr []"
| "freeze_items ((k, v) # rest) =
     (case freeze v of
        Inl e \<Rightarrow> Inl e
      | Inr fv \<Rightarrow> (case freeze_items rest of Inl e \<Rightarrow> Inl e | Inr fr \<Rightarrow> Inr ((k, fv) # fr)))"
| "freeze_each [] = Inr []"
| "freeze_each (x # xs) =
     (case freeze x of
        Inl e \<Rightarrow> Inl e
      | Inr fx \<Rightarrow> (case freeze_each xs of Inl e \<Rightarrow> Inl e | Inr fs \<Rightarrow> Inr (fx # fs)))"

text \<open>
  \<^verbatim>\<open>PropertiesApi\<close> keeps \<^verbatim>\<open>freeze(properties)\<close> and is a read-only \<^verbatim>\<open>Mapping\<close>: the class
  defines \<^verbatim>\<open>__getitem__\<close>, \<^verbatim>\<open>__len__\<close> and \<^verbatim>\<open>__iter__\<close> and neither \<^verbatim>\<open>__setitem__\<close> nor
  \<^verbatim>\<open>__delitem__\<close>, so Python answers both statements with a \<^verbatim>\<open>TypeError\<close>.
\<close>

definition PropertiesApi :: "pyval \<Rightarrow> py_error + pyval" where
  \<comment> \<open>\<^verbatim>\<open>PropertiesApi.__init__\<close>: the value of \<^verbatim>\<open>self._properties\<close>\<close>
  "PropertiesApi properties = freeze properties"

definition items_of :: "pyval \<Rightarrow> (string \<times> pyval) list" where
  "items_of v = (case v of PDict d \<Rightarrow> d | PImm d \<Rightarrow> d | _ \<Rightarrow> [])"

definition PropertiesApi_getitem :: "pyval \<Rightarrow> string \<Rightarrow> py_error + pyval" where
  "PropertiesApi_getitem props key =
     (case map_of (items_of props) key of None \<Rightarrow> Inl (KeyError key) | Some v \<Rightarrow> Inr v)"

definition PropertiesApi_len :: "pyval \<Rightarrow> nat" where
  "PropertiesApi_len props = length (items_of props)"

definition PropertiesApi_iter :: "pyval \<Rightarrow> string list" where
  "PropertiesApi_iter props = map fst (items_of props)"

definition PropertiesApi_setitem :: "pyval \<Rightarrow> string \<Rightarrow> pyval \<Rightarrow> py_error + pyval" where
  "PropertiesApi_setitem props key v =
     Inl (TypeError ''object does not support item assignment'')"

definition PropertiesApi_delitem :: "pyval \<Rightarrow> string \<Rightarrow> py_error + pyval" where
  "PropertiesApi_delitem props key = Inl (TypeError ''object does not support item deletion'')"

definition fix_blamelist :: "(string \<times> pyval) list \<Rightarrow> (string \<times> pyval) list" where
  \<comment> \<open>\<^verbatim>\<open>run_steps\<close>: when the build properties have both keys, \<^verbatim>\<open>'blamelist'\<close> takes the value
      of \<^verbatim>\<open>'blamelist_real'\<close>, which is deleted\<close>
  "fix_blamelist build_properties =
     (case (map_of build_properties ''blamelist_real'', map_of build_properties ''blamelist'') of
        (Some real, Some b) \<Rightarrow> od_del ''blamelist_real'' (od_set ''blamelist'' real build_properties)
      | _ \<Rightarrow> build_properties)"

definition dict_update :: "('k \<times> 'v) list \<Rightarrow> ('k \<times> 'v) list \<Rightarrow> ('k \<times> 'v) list" where
  \<comment> \<open>\<^verbatim>\<open>d.update(other)\<close>\<close>
  "dict_update d other = fold (\<lambda>(k, v). od_set k v) other d"

definition merged_properties ::
  "(string \<times> pyval) list \<Rightarrow> (string \<times> pyval) list \<Rightarrow> (string \<times> pyval) list" where
  \<comment> \<open>\<^verbatim>\<open>properties = factory_properties.copy(); properties.update(build_properties)\<close>\<close>
  "merged_properties build_properties factory_properties =
     dict_update factory_properties (fix_blamelist build_properties)"

definition property_bag ::
  "(string \<times> pyval) list \<Rightarrow> (string \<times> pyval) list \<Rightarrow> py_error + pyval" where
  \<comment> \<open>the bag that recipe code reads through \<^verbatim>\<open>PropertiesApi\<close>\<close>
  "property_bag build_properties factory_properties =
     PropertiesApi (PDict (merged_properties build_properties factory_properties))"

text \<open>
  The specification's wording, for comparison: the merge in which the build properties
  override the factory properties.
\<close>

definition spec_merge ::
  "(string \<times> pyval) list \<Rightarrow> (string \<times> pyval) list \<Rightarrow> string \<Rightarrow> pyval option" where
  "spec_merge build_properties factory_properties key =
     (case map_of build_properties key of
        Some v \<Rightarrow> Some v
      | None \<Rightarrow> map_of factory_properties key)"

section \<open>Notions used to state the properties\<close>

definition known_current :: "parser \<Rightarrow> bool" where
  \<comment> \<open>the test being tracked has an entry in the status table\<close>
  "known_current st = (current_test st \<noteq> [] \<longrightarrow> test_status st (current_test st) \<noteq> None)"





definition status_after :: "py_error + parser \<Rightarrow> string \<Rightarrow> string option" where
  "status_after r t = (case r of Inl e \<Rightarrow> None | Inr st \<Rightarrow> Some (priv_StatusOfTest st t))"

definition description_after :: "py_error + parser \<Rightarrow> string \<Rightarrow> string list option" where
  "description_after r t = (case r of Inl e \<Rightarrow> None | Inr st \<Rightarrow> Some (FailureDescription st t))"

definition disabled_after :: "py_error + parser \<Rightarrow> count option" where
  "disabled_after r = (case r of Inl e \<Rightarrow> None | Inr st \<Rightarrow> Some (DisabledTests st))"

definition flaky_after :: "py_error + parser \<Rightarrow> count option" where
  "flaky_after r = (case r of Inl e \<Rightarrow> None | Inr st \<Rightarrow> Some (FlakyTests st))"

fun statuses_set :: "pres_op list \<Rightarrow> string list" where
  \<comment> \<open>the statuses that a list of calls sets, in order\<close>
  "statuses_set [] = []"
| "statuses_set (SetStatus v # ops) = v # statuses_set ops"
| "statuses_set (SetStepText v # ops) = statuses_set ops"
| "statuses_set (SetStepSummaryText v # ops) = statuses_set ops"
| "statuses_set (SetLog k ls # ops) = statuses_set ops"
| "statuses_set (SetPerfLog k ls # ops) = statuses_set ops"

definition callback_ops :: "step \<Rightarrow> (string \<times> placeholder list) list \<Rightarrow> pres_op list" where
  \<comment> \<open>what the placeholders and then the follow-up function of a step do to its presentation\<close>
  "callback_ops s placeholders =
     concat (map ph_step_finished (concat (map snd placeholders)))
       @ (case followup_fn s of None \<Rightarrow> [] | Some ops \<Rightarrow> ops)"

definition recorded_status :: "py_error option \<times> run_state \<Rightarrow> string \<Rightarrow> string option option" where
  \<comment> \<open>the status of the presentation that the history holds for a step, if it holds one\<close>
  "recorded_status r n =
     (case map_of (step_history (snd r)) n of
        None \<Rightarrow> None
      | Some d \<Rightarrow> Some (status (presentation d)))"

definition well_formed :: "presentation \<Rightarrow> store \<Rightarrow> bool" where
  \<comment> \<open>the two dictionaries of the presentation and the lists they hold have been created\<close>
  "well_formed p st =
     (logs_ref p < next_dict st \<and> perf_logs_ref p < next_dict st
      \<and> (\<forall>(k, a) \<in> set (dict_objs st (logs_ref p)). a < next_list st)
      \<and> (\<forall>(k, a) \<in> set (dict_objs st (perf_logs_ref p)). a < next_list st))"

section \<open>Facts about the patterns\<close>

lemma keep_group: "(case c of None \<Rightarrow> None | Some g \<Rightarrow> Some g) = c"
  by (cases c) auto

lemma run_Seq_Lit:
  "run (Seq (Lit l) b) s = (if take (length l) s = l then run b (drop (length l) s) else [])"
  by (simp add: keep_group)

lemma concat_rev_upt_last:
  assumes "\<And>i. i < n \<Longrightarrow> f i = []"
  shows "concat (map f (rev [m ..< Suc n])) = (if m \<le> n then f n else [])"
proof -
  have "concat (map f (rev [m ..< n])) = []"
    using assms by (induction n) auto
  then show ?thesis by auto
qed

lemma drop_in_takeWhile:
  assumes "i < length (takeWhile P s)"
  shows "\<exists>x t. drop i s = x # t \<and> P x"
proof -
  have "i < length s" using assms by (meson length_takeWhile_le less_le_trans)
  then have "drop i s = s ! i # drop (Suc i) s" by (simp add: Cons_nth_drop_Suc)
  moreover have "P (s ! i)" using assms
    by (metis nth_mem set_takeWhileD takeWhile_nth)
  ultimately show ?thesis by blast
qed

lemma drop_length_takeWhile: "drop (length (takeWhile P s)) s = dropWhile P s"
  by (induction s) auto

lemma take_length_takeWhile: "take (length (takeWhile P s)) s = takeWhile P s"
  by (induction s) auto

lemma run_Seq_Star:
  assumes "\<And>x t. in_cls k x \<Longrightarrow> run b (x # t) = []"
  shows "run (Seq (Star k) b) s = run b (dropWhile (in_cls k) s)"
proof -
  let ?f = "\<lambda>i. map (\<lambda>(c2, s2). (case c2 of None \<Rightarrow> None | Some g \<Rightarrow> Some g, s2)) (run b (drop i s))"
  have z: "?f i = []" if "i < length (takeWhile (in_cls k) s)" for i
    using drop_in_takeWhile[OF that] assms by auto
  have "run (Seq (Star k) b) s = concat (map ?f (rev [0 ..< Suc (length (takeWhile (in_cls k) s))]))"
    by (simp add: comp_def rev_map[symmetric] map_concat)
  also have "\<dots> = ?f (length (takeWhile (in_cls k) s))"
    using concat_rev_upt_last[of "length (takeWhile (in_cls k) s)" ?f 0] z by simp
  finally show ?thesis by (simp add: drop_length_takeWhile keep_group)
qed


lemma run_Seq_Grp1_Plus:
  assumes "\<And>x t. in_cls k x \<Longrightarrow> run b (x # t) = []"
  shows "run (Seq (Grp1 (Plus k)) b) s =
           (if takeWhile (in_cls k) s = [] then []
            else map (\<lambda>(c2, s2). (case c2 of None \<Rightarrow> Some (takeWhile (in_cls k) s) | Some g \<Rightarrow> Some g, s2))
                   (run b (dropWhile (in_cls k) s)))"
proof -
  let ?n = "length (takeWhile (in_cls k) s)"
  let ?f = "\<lambda>i. map (\<lambda>(c2, s2). (case c2 of None \<Rightarrow> Some (take (length s - length (drop i s)) s) | Some g \<Rightarrow> Some g, s2)) (run b (drop i s))"
  have z: "?f i = []" if "i < ?n" for i
    using drop_in_takeWhile[OF that] assms by auto
  have "run (Seq (Grp1 (Plus k)) b) s = concat (map ?f (rev [1 ..< Suc ?n]))"
    by (simp add: comp_def rev_map[symmetric] map_concat del: length_drop)
  also have "\<dots> = (if 1 \<le> ?n then ?f ?n else [])"
    using concat_rev_upt_last[of ?n ?f 1] z by simp
  finally have e: "run (Seq (Grp1 (Plus k)) b) s = (if 1 \<le> ?n then ?f ?n else [])" .
  have "?n \<le> length s" by (simp add: length_takeWhile_le)
  then have "take (length s - length (drop ?n s)) s = takeWhile (in_cls k) s"
    by (simp add: take_length_takeWhile)
  then show ?thesis unfolding e
    by (auto simp add: drop_length_takeWhile Suc_le_eq split: option.splits)
qed



lemma run_Lit_reject: "x \<noteq> c \<Longrightarrow> run (Seq (Lit (c # l)) b) (x # t) = []"
  by simp


lemma banner_run:
  assumes "w \<noteq> []" "hd w = CHR '' ''"
  shows "run (cat [Star Space, Lit ''YOU HAVE '', Grp1 (Plus Digit), Lit w]) s =
     (let s1 = dropWhile is_space s; s2 = drop (length ''YOU HAVE '') s1;
          s3 = dropWhile is_digit s2
      in if take (length ''YOU HAVE '') s1 = ''YOU HAVE '' \<and> takeWhile is_digit s2 \<noteq> []
            \<and> take (length w) s3 = w
         then [(Some (takeWhile is_digit s2), drop (length w) s3)] else [])"
proof -
  obtain w' where w: "w = CHR '' '' # w'" using assms by (cases w) auto
  have a: "run (Seq (Lit w) Eps) (x # t) = []" if "in_cls Digit x" for x t
    using that unfolding w by (auto simp: is_digit_def)
  have b: "run (Seq (Lit ''YOU HAVE '') r) (x # t) = []" if "in_cls Space x" for x t r
    using that by (auto simp: is_space_def)
  have c: "run (Seq (Lit w) Eps) t = (if take (length w) t = w then [(None, drop (length w) t)] else [])"
    for t by simp
  have "run (cat [Star Space, Lit ''YOU HAVE '', Grp1 (Plus Digit), Lit w]) s =
        run (Seq (Lit ''YOU HAVE '') (Seq (Grp1 (Plus Digit)) (Seq (Lit w) Eps)))
          (dropWhile (in_cls Space) s)"
    unfolding cat_def foldr.simps comp_def id_def by (rule run_Seq_Star) (rule b)
  also have "\<dots> = (if take (length ''YOU HAVE '') (dropWhile (in_cls Space) s) = ''YOU HAVE ''
                    then run (Seq (Grp1 (Plus Digit)) (Seq (Lit w) Eps))
                           (drop (length ''YOU HAVE '') (dropWhile (in_cls Space) s))
                    else [])"
    by (rule run_Seq_Lit)
  finally have F: "run (cat [Star Space, Lit ''YOU HAVE '', Grp1 (Plus Digit), Lit w]) s =
      (if take (length ''YOU HAVE '') (dropWhile (in_cls Space) s) = ''YOU HAVE ''
       then run (Seq (Grp1 (Plus Digit)) (Seq (Lit w) Eps))
              (drop (length ''YOU HAVE '') (dropWhile (in_cls Space) s))
       else [])" .
  have G: "run (Seq (Grp1 (Plus Digit)) (Seq (Lit w) Eps)) t =
           (if takeWhile (in_cls Digit) t = [] then []
            else map (\<lambda>(c2, s2). (case c2 of None \<Rightarrow> Some (takeWhile (in_cls Digit) t) | Some g \<Rightarrow> Some g, s2))
                   (run (Seq (Lit w) Eps) (dropWhile (in_cls Digit) t)))" for t
    by (rule run_Seq_Grp1_Plus) (rule a)
  show ?thesis
    unfolding F G c Let_def in_cls.simps[abs_def]
    by (simp del: run.simps)
qed

lemma disabled_run:
  "run disabled s =
     (let s1 = dropWhile is_space s; s2 = drop (length ''YOU HAVE '') s1;
          s3 = dropWhile is_digit s2
      in if take (length ''YOU HAVE '') s1 = ''YOU HAVE '' \<and> takeWhile is_digit s2 \<noteq> []
            \<and> take (length '' DISABLED TEST'') s3 = '' DISABLED TEST''
         then [(Some (takeWhile is_digit s2), drop (length '' DISABLED TEST'') s3)] else [])"
  unfolding disabled_def by (rule banner_run) simp_all

lemma flaky_run:
  "run flaky s =
     (let s1 = dropWhile is_space s; s2 = drop (length ''YOU HAVE '') s1;
          s3 = dropWhile is_digit s2
      in if take (length ''YOU HAVE '') s1 = ''YOU HAVE '' \<and> takeWhile is_digit s2 \<noteq> []
            \<and> take (length '' FLAKY TEST'') s3 = '' FLAKY TEST''
         then [(Some (takeWhile is_digit s2), drop (length '' FLAKY TEST'') s3)] else [])"
  unfolding flaky_def by (rule banner_run) simp_all

lemma flaky_not_disabled:
  assumes "re_match flaky s \<noteq> None"
  shows "re_match disabled s = None"
proof (rule ccontr)
  assume d: "re_match disabled s \<noteq> None"
  define s3 where "s3 = dropWhile is_digit (drop (length ''YOU HAVE '') (dropWhile is_space s))"
  have f: "take (length '' FLAKY TEST'') s3 = '' FLAKY TEST''"
    using assms by (auto simp: re_match_def flaky_run Let_def s3_def split: if_splits)
  have g: "take (length '' DISABLED TEST'') s3 = '' DISABLED TEST''"
    using d by (auto simp: re_match_def disabled_run Let_def s3_def split: if_splits)
  have "take 2 (take (length '' FLAKY TEST'') s3) = take 2 (take (length '' DISABLED TEST'') s3)"
    by (simp add: min_def)
  then show False unfolding f g by simp
qed

lemma banner_needs_no_bracket:
  assumes "re_match disabled s \<noteq> None \<or> re_match flaky s \<noteq> None"
  shows "take 1 s \<noteq> ''[''"
proof
  assume b: "take 1 s = ''[''"
  then obtain t where s: "s = CHR ''['' # t" by (cases s) auto
  have "dropWhile is_space s = s" unfolding s by (simp add: is_space_def)
  then have "take (length ''YOU HAVE '') s = ''YOU HAVE ''"
    using assms by (auto simp: re_match_def flaky_run disabled_run Let_def split: if_splits)
  then show False unfolding s by simp
qed

lemma bracket_needed:
  assumes "take 1 s \<noteq> ''[''"
  shows "re_match run_test_cases_line s = None" "re_match test_passed s = None"
    "re_match test_start s = None" "re_match test_ok s = None" "re_match test_fail s = None"
  using assms
  by (simp_all add: re_match_def run_test_cases_line_def test_passed_def test_start_def
        test_ok_def test_fail_def cat_def run_Seq_Lit del: run.simps)


subsection \<open>Counts\<close>

lemma digit_val_range: "is_digit c \<Longrightarrow> 0 \<le> digit_val c \<and> digit_val c \<le> 9"
  by (auto simp: is_digit_def digit_val_def)

lemma foldl_dec_nonneg:
  "\<forall>c\<in>set ds. is_digit c \<Longrightarrow> 0 \<le> a \<Longrightarrow> 0 \<le> foldl (\<lambda>acc c. 10 * acc + digit_val c) a ds"
  by (induction ds arbitrary: a) (auto simp: digit_val_range)

lemma dec_val_nonneg: "\<forall>c\<in>set ds. is_digit c \<Longrightarrow> 0 \<le> dec_val ds"
  unfolding dec_val_def by (rule foldl_dec_nonneg) auto

lemma digit_not_space: "is_digit c \<Longrightarrow> \<not> is_space c"
  by (auto simp: is_space_def is_digit_def)

lemma dropWhile_none: "\<forall>c\<in>set xs. \<not> P c \<Longrightarrow> dropWhile P xs = xs"
  by (cases xs) auto

lemma strip_digits: "\<forall>c\<in>set ds. is_digit c \<Longrightarrow> strip ds = ds"
  unfolding strip_def by (simp add: dropWhile_none digit_not_space)

lemma py_int_digits:
  assumes "ds \<noteq> []" "\<forall>c\<in>set ds. is_digit c"
  shows "py_int maxint ds = Some (mk_int maxint (dec_val ds))"
proof -
  obtain c r where ds: "ds = c # r" using assms(1) by (cases ds) auto
  have "is_digit c" using assms(2) ds by simp
  then have "c \<noteq> CHR ''-''" "c \<noteq> CHR ''+''" by (auto simp: is_digit_def)
  then show ?thesis
    using assms by (simp add: py_int_def strip_digits ds list_all_iff)
qed

lemma banner_count_digits:
  assumes "ds \<noteq> []" "\<forall>c\<in>set ds. is_digit c"
  shows "banner_count maxint ds old =
           (if 0 < dec_val ds \<and> isinstance_int old then mk_int maxint (dec_val ds) else PyStr ''some'')"
  by (simp add: banner_count_def py_int_digits[OF assms] mk_int_def)

lemma banner_count_sticky: "\<not> isinstance_int old \<Longrightarrow> banner_count maxint g old = PyStr ''some''"
  by (simp add: banner_count_def)

lemma banner_count_unparsable: "py_int maxint g = None \<Longrightarrow> banner_count maxint g old = PyStr ''some''"
  by (simp add: banner_count_def)

subsection \<open>Banner lines\<close>

lemma dropWhile_spaces:
  "\<forall>c\<in>set ws. P c \<Longrightarrow> \<not> P x \<Longrightarrow> dropWhile P (ws @ x # t) = x # t"
  by (induction ws) auto

lemma takeWhile_digits:
  "\<forall>c\<in>set ds. P c \<Longrightarrow> \<not> P x \<Longrightarrow> takeWhile P (ds @ x # t) = ds"
  by (induction ds) auto

lemma Y_not_space: "\<not> is_space CHR ''Y''"
  by (simp add: is_space_def)

lemma blank_not_digit: "\<not> is_digit CHR '' ''"
  by (simp add: is_digit_def)

lemma disabled_banner_match:
  assumes "\<forall>c\<in>set ws. is_space c" "ds \<noteq> []" "\<forall>c\<in>set ds. is_digit c"
  shows "re_match disabled (ws @ ''YOU HAVE '' @ ds @ '' DISABLED TEST'' @ rest) = Some (Some ds, rest)"
  unfolding re_match_def disabled_run Let_def
  using assms by (simp add: Y_not_space blank_not_digit)

lemma flaky_banner_match:
  assumes "\<forall>c\<in>set ws. is_space c" "ds \<noteq> []" "\<forall>c\<in>set ds. is_digit c"
  shows "re_match flaky (ws @ ''YOU HAVE '' @ ds @ '' FLAKY TEST'' @ rest) = Some (Some ds, rest)"
  unfolding re_match_def flaky_run Let_def
  using assms by (simp add: Y_not_space blank_not_digit)

lemma on_disabled_line:
  assumes "re_match disabled line = Some m"
  shows "priv_ProcessLine maxint st line = Inr (on_disabled maxint (set_master_name st line) (group1 m))"
proof -
  have "take 1 line \<noteq> ''[''" using banner_needs_no_bracket assms by auto
  from bracket_needed(1,2)[OF this] show ?thesis
    by (simp add: priv_ProcessLine_def assms)
qed

lemma on_flaky_line:
  assumes "re_match flaky line = Some m"
  shows "priv_ProcessLine maxint st line = Inr (on_flaky maxint (set_master_name st line) (group1 m))"
proof -
  have "take 1 line \<noteq> ''[''" using banner_needs_no_bracket assms by auto
  from bracket_needed(1,2)[OF this] flaky_not_disabled[of line] show ?thesis
    by (simp add: priv_ProcessLine_def assms)
qed

lemma set_master_name_counts:
  "disabled_tests (set_master_name st line) = disabled_tests st"
  "flaky_tests (set_master_name st line) = flaky_tests st"
  by (auto simp: set_master_name_def split: option.splits)

text \<open>
  Claim C4, as the code has it.  A banner line is blanks, \<^verbatim>\<open>YOU HAVE\<close>, a non-empty string
  of digits \<open>ds\<close> and \<^verbatim>\<open>DISABLED TEST\<close> (or \<^verbatim>\<open>FLAKY TEST\<close>), followed by anything.  After
  such a line \<^verbatim>\<open>DisabledTests()\<close> (or \<^verbatim>\<open>FlakyTests()\<close>) is the integer that \<open>ds\<close> denotes when this
  integer is positive and the count held before the line is an \<^verbatim>\<open>int\<close>; in every other
  case it is \<^verbatim>\<open>'some'\<close>.
\<close>

theorem banner_counts:
  assumes "\<forall>c\<in>set ws. is_space c" "ds \<noteq> []" "\<forall>c\<in>set ds. is_digit c"
  shows "(\<exists>st'. priv_ProcessLine maxint st (ws @ ''YOU HAVE '' @ ds @ '' DISABLED TEST'' @ rest) = Inr st'
            \<and> DisabledTests st' =
                (if 0 < dec_val ds \<and> isinstance_int (DisabledTests st)
                 then mk_int maxint (dec_val ds) else PyStr ''some''))
       \<and> (\<exists>st'. priv_ProcessLine maxint st (ws @ ''YOU HAVE '' @ ds @ '' FLAKY TEST'' @ rest) = Inr st'
            \<and> FlakyTests st' =
                (if 0 < dec_val ds \<and> isinstance_int (FlakyTests st)
                 then mk_int maxint (dec_val ds) else PyStr ''some''))"
  using on_disabled_line[OF disabled_banner_match[OF assms]]
        on_flaky_line[OF flaky_banner_match[OF assms]]
  by (simp add: on_disabled_def on_flaky_def DisabledTests_def FlakyTests_def group1_def
        set_master_name_counts banner_count_digits[OF assms(2,3)])

text \<open>The banners with the count 3, read by a new parser.\<close>

theorem banner_counts_witness:
  "(\<exists>st'. priv_ProcessLine 2147483647 init_parser ''YOU HAVE 3 DISABLED TESTS'' = Inr st'
       \<and> DisabledTests st' = PyInt 3)
   \<and> (\<exists>st'. priv_ProcessLine 2147483647 init_parser ''YOU HAVE 3 FLAKY TESTS'' = Inr st'
       \<and> FlakyTests st' = PyInt 3)"
  using banner_counts[of "[]" "''3''" 2147483647 init_parser "''S''"]
  by (simp add: is_digit_def dec_val_def digit_val_def mk_int_def DisabledTests_def FlakyTests_def
        init_parser_def)


subsection \<open>What a line can do to the counts\<close>

lemma timeout_current_test_counts:
  "timeout_current_test st = Inr st1 \<Longrightarrow>
     disabled_tests st1 = disabled_tests st \<and> flaky_tests st1 = flaky_tests st"
  by (auto simp: timeout_current_test_def split: if_splits option.splits)

lemma branches_keep_disabled:
  "on_run_test_cases_line st = Inr st' \<Longrightarrow> disabled_tests st' = disabled_tests st"
  "disabled_tests (on_test_passed st) = disabled_tests st"
  "disabled_tests (on_flaky maxint st g) = disabled_tests st"
  "on_test_start st n = Inr st' \<Longrightarrow> disabled_tests st' = disabled_tests st"
  "disabled_tests (on_test_ok st line n) = disabled_tests st"
  "disabled_tests (on_test_fail st line n) = disabled_tests st"
  "disabled_tests (on_test_timeout st line n) = disabled_tests st"
  "disabled_tests (on_suppression_start st line n) = disabled_tests st"
  "disabled_tests (on_suppression_end st line) = disabled_tests st"
  "disabled_tests (on_random_line st line) = disabled_tests st"
  by (auto simp: on_run_test_cases_line_def on_test_passed_def on_flaky_def on_test_start_def
        record_started_def on_test_ok_def on_test_fail_def on_test_timeout_def
        on_suppression_start_def on_suppression_end_def on_random_line_def alloc_def
        heap_extend_def priv_RecordError_def Let_def
        dest!: timeout_current_test_counts split: sum.splits option.splits if_splits)

lemma branches_keep_flaky:
  "on_run_test_cases_line st = Inr st' \<Longrightarrow> flaky_tests st' = flaky_tests st"
  "flaky_tests (on_test_passed st) = flaky_tests st"
  "flaky_tests (on_disabled maxint st g) = flaky_tests st"
  "on_test_start st n = Inr st' \<Longrightarrow> flaky_tests st' = flaky_tests st"
  "flaky_tests (on_test_ok st line n) = flaky_tests st"
  "flaky_tests (on_test_fail st line n) = flaky_tests st"
  "flaky_tests (on_test_timeout st line n) = flaky_tests st"
  "flaky_tests (on_suppression_start st line n) = flaky_tests st"
  "flaky_tests (on_suppression_end st line) = flaky_tests st"
  "flaky_tests (on_random_line st line) = flaky_tests st"
  by (auto simp: on_run_test_cases_line_def on_test_passed_def on_disabled_def on_test_start_def
        record_started_def on_test_ok_def on_test_fail_def on_test_timeout_def
        on_suppression_start_def on_suppression_end_def on_random_line_def alloc_def
        heap_extend_def priv_RecordError_def Let_def
        dest!: timeout_current_test_counts split: sum.splits option.splits if_splits)

lemma priv_ProcessLine_disabled:
  assumes "priv_ProcessLine maxint st line = Inr st'"
  shows "disabled_tests st' = disabled_tests st
         \<or> (\<exists>g. disabled_tests st' = banner_count maxint g (disabled_tests st))"
  using assms unfolding priv_ProcessLine_def Let_def
  by (auto simp: branches_keep_disabled set_master_name_counts on_disabled_def
           split: if_splits option.splits)

lemma priv_ProcessLine_flaky:
  assumes "priv_ProcessLine maxint st line = Inr st'"
  shows "flaky_tests st' = flaky_tests st
         \<or> (\<exists>g. flaky_tests st' = banner_count maxint g (flaky_tests st))"
  using assms unfolding priv_ProcessLine_def Let_def
  by (auto simp: branches_keep_flaky set_master_name_counts on_flaky_def
           split: if_splits option.splits)

subsection \<open>Lines that start a test\<close>









subsection \<open>Processing never raises\<close>

lemma timeout_current_test_total:
  assumes "known_current st"
  shows "\<exists>st1. timeout_current_test st = Inr st1 \<and> known_current st1"
  using assms
  by (auto simp: timeout_current_test_def known_current_def split: option.splits)

lemma on_test_start_total:
  assumes "known_current st"
  shows "\<exists>st'. on_test_start st n = Inr st' \<and> known_current st'"
proof -
  from timeout_current_test_total[OF assms] obtain st1 where
    t: "timeout_current_test st = Inr st1" by blast
  show ?thesis
    unfolding on_test_start_def t
    by (auto simp: record_started_def alloc_def heap_extend_def known_current_def Let_def)
qed

lemma on_run_test_cases_line_total:
  assumes "known_current st"
  shows "\<exists>st'. on_run_test_cases_line st = Inr st' \<and> known_current st'"
proof -
  from timeout_current_test_total[OF assms] obtain st1 where
    t: "timeout_current_test st = Inr st1" by blast
  show ?thesis
    unfolding on_run_test_cases_line_def t
    by (auto simp: alloc_def known_current_def Let_def)
qed

lemma branches_known_current:
  "known_current (on_test_passed st)"
  "known_current (on_test_ok st line n)"
  "known_current (on_test_fail st line n)"
  "known_current (on_test_timeout st line n)"
  "known_current st \<Longrightarrow> known_current (on_disabled maxint st g)"
  "known_current st \<Longrightarrow> known_current (on_flaky maxint st g)"
  "known_current st \<Longrightarrow> known_current (on_suppression_start st line n)"
  "known_current st \<Longrightarrow> known_current (on_suppression_end st line)"
  "known_current st \<Longrightarrow> known_current (st\<lparr>retrying_failed := True\<rparr>)"
  "known_current st \<Longrightarrow> known_current (on_random_line st line)"
  "known_current st \<Longrightarrow> known_current (set_master_name st line)"
  by (auto simp: known_current_def on_test_passed_def on_test_ok_def on_test_fail_def
        on_test_timeout_def on_disabled_def on_flaky_def on_suppression_start_def
        on_suppression_end_def on_random_line_def set_master_name_def alloc_def heap_extend_def
        priv_RecordError_def Let_def split: option.splits)

lemma priv_ProcessLine_total:
  assumes "known_current st"
  shows "\<exists>st'. priv_ProcessLine maxint st line = Inr st' \<and> known_current st'"
proof -
  have k: "known_current (set_master_name st line)"
    using assms by (rule branches_known_current)
  show ?thesis
    unfolding priv_ProcessLine_def Let_def
    using on_run_test_cases_line_total[OF k] on_test_start_total[OF k] k
    by (auto simp: branches_known_current split: option.splits)
qed

lemma ProcessLine_total:
  assumes "known_current st"
  shows "\<exists>st'. ProcessLine maxint st line = Inr st' \<and> known_current st'"
proof -
  let ?st = "st\<lparr>line_number := line_number st + 1\<rparr>"
  have k: "known_current ?st" using assms by (simp add: known_current_def)
  show ?thesis
  proof (cases "first_search gtest_regexps line")
    case None
    then show ?thesis using priv_ProcessLine_total[OF k] by (simp add: ProcessLine_def)
  next
    case (Some i)
    show ?thesis
    proof (cases "i = 0")
      case True
      then show ?thesis using Some priv_ProcessLine_total[OF k] by (simp add: ProcessLine_def)
    next
      case False
      from priv_ProcessLine_total[OF k, of maxint "take i line"] obtain st1 where
        1: "priv_ProcessLine maxint ?st (take i line) = Inr st1" "known_current st1" by blast
      from priv_ProcessLine_total[OF 1(2), of maxint "drop i line"] 1(1) Some False
      show ?thesis by (simp add: ProcessLine_def)
    qed
  qed
qed

lemma ProcessLines_total:
  "known_current st \<Longrightarrow> \<exists>st'. ProcessLines maxint st ls = Inr st' \<and> known_current st'"
proof (induction ls arbitrary: st)
  case Nil
  then show ?case by simp
next
  case (Cons l ls)
  from ProcessLine_total[OF Cons.prems, of maxint l] obtain st1 where
    1: "ProcessLine maxint st l = Inr st1" "known_current st1" by blast
  from Cons.IH[OF 1(2)] 1(1) show ?case by simp
qed


subsection \<open>The sentinel stays\<close>

lemma ProcessLine_counts:
  assumes "ProcessLine maxint st line = Inr st'"
  shows "(disabled_tests st = PyStr ''some'' \<longrightarrow> disabled_tests st' = PyStr ''some'')
       \<and> (flaky_tests st = PyStr ''some'' \<longrightarrow> flaky_tests st' = PyStr ''some'')"
proof -
  let ?st = "st\<lparr>line_number := line_number st + 1\<rparr>"
  have step: "(disabled_tests a = PyStr ''some'' \<longrightarrow> disabled_tests b = PyStr ''some'')
            \<and> (flaky_tests a = PyStr ''some'' \<longrightarrow> flaky_tests b = PyStr ''some'')"
    if "priv_ProcessLine maxint a l = Inr b" for a b l
    using priv_ProcessLine_disabled[OF that] priv_ProcessLine_flaky[OF that]
    by (auto simp: banner_count_sticky)
  show ?thesis
  proof (cases "first_search gtest_regexps line")
    case None
    with assms have "priv_ProcessLine maxint ?st line = Inr st'" by (simp add: ProcessLine_def)
    from step[OF this] show ?thesis by simp
  next
    case (Some i)
    show ?thesis
    proof (cases "i = 0")
      case True
      with assms Some have "priv_ProcessLine maxint ?st line = Inr st'"
        by (simp add: ProcessLine_def)
      from step[OF this] show ?thesis by simp
    next
      case False
      with assms Some obtain st1 where
        1: "priv_ProcessLine maxint ?st (take i line) = Inr st1"
        and 2: "priv_ProcessLine maxint st1 (drop i line) = Inr st'"
        by (auto simp: ProcessLine_def split: sum.splits)
      from step[OF 1] step[OF 2] show ?thesis by simp
    qed
  qed
qed

lemma ProcessLines_counts:
  "ProcessLines maxint st ls = Inr st' \<Longrightarrow>
     (disabled_tests st = PyStr ''some'' \<longrightarrow> disabled_tests st' = PyStr ''some'')
   \<and> (flaky_tests st = PyStr ''some'' \<longrightarrow> flaky_tests st' = PyStr ''some'')"
proof (induction ls arbitrary: st)
  case Nil
  then show ?case by simp
next
  case (Cons l ls)
  then obtain st1 where 1: "ProcessLine maxint st l = Inr st1"
    and 2: "ProcessLines maxint st1 ls = Inr st'"
    by (auto split: sum.splits)
  from ProcessLine_counts[OF 1] Cons.IH[OF 2] show ?case by simp
qed

text \<open>
  Claim C9.  Once the disabled (or flaky) count is \<^verbatim>\<open>'some'\<close>, it is \<^verbatim>\<open>'some'\<close> after any
  further lines, whatever they are; and from a state in which the tracked test has an
  entry in the status table, as every state the parser reaches has, the lines are
  processed without an exception.
\<close>

theorem sentinel_is_sticky:
  "(\<forall>st'. ProcessLines maxint st ls = Inr st' \<longrightarrow>
       (DisabledTests st = PyStr ''some'' \<longrightarrow> DisabledTests st' = PyStr ''some'')
     \<and> (FlakyTests st = PyStr ''some'' \<longrightarrow> FlakyTests st' = PyStr ''some''))
   \<and> (known_current st \<longrightarrow> (\<exists>st'. ProcessLines maxint st ls = Inr st'))"
  using ProcessLines_counts[of maxint st ls] ProcessLines_total[of st maxint ls]
  by (auto simp: DisabledTests_def FlakyTests_def)

text \<open>
  A banner with the count 0 sets the sentinel; a later banner with the count 3 does not
  change it.
\<close>

theorem sentinel_is_sticky_witness:
  "disabled_after (ProcessLines 2147483647 init_parser
      [''YOU HAVE 0 DISABLED TESTS'', ''[ RUN      ] Foo.Bar'', ''YOU HAVE 3 DISABLED TESTS''])
     = Some (PyStr ''some'')
   \<and> flaky_after (ProcessLines 2147483647 init_parser
      [''YOU HAVE 0 FLAKY TESTS'', ''YOU HAVE 3 FLAKY TESTS'']) = Some (PyStr ''some'')"
proof -
  let ?d0 = "on_disabled 2147483647 (init_parser\<lparr>line_number := 1\<rparr>) ''0''"
  let ?f0 = "on_flaky 2147483647 (init_parser\<lparr>line_number := 1\<rparr>) ''0''"
  have fd: "first_search gtest_regexps ''YOU HAVE 0 DISABLED TESTS'' = None"
    and ff: "first_search gtest_regexps ''YOU HAVE 0 FLAKY TESTS'' = None"
    and nd: "re_match master_name_re ''YOU HAVE 0 DISABLED TESTS'' = None"
    and nf: "re_match master_name_re ''YOU HAVE 0 FLAKY TESTS'' = None"
    and md: "re_match disabled ''YOU HAVE 0 DISABLED TESTS'' = Some (Some ''0'', ''S'')"
    and mf: "re_match flaky ''YOU HAVE 0 FLAKY TESTS'' = Some (Some ''0'', ''S'')"
    by code_simp+
  have d: "ProcessLine 2147483647 init_parser ''YOU HAVE 0 DISABLED TESTS'' = Inr ?d0"
    by (simp add: ProcessLine_def fd on_disabled_line[OF md] set_master_name_def nd group1_def
          init_parser_def)
  have f: "ProcessLine 2147483647 init_parser ''YOU HAVE 0 FLAKY TESTS'' = Inr ?f0"
    by (simp add: ProcessLine_def ff on_flaky_line[OF mf] set_master_name_def nf group1_def
          init_parser_def)
  have kd: "known_current ?d0" and kf: "known_current ?f0"
    by (simp_all add: known_current_def on_disabled_def on_flaky_def init_parser_def)
  have sd: "DisabledTests ?d0 = PyStr ''some''" and sf: "FlakyTests ?f0 = PyStr ''some''"
    by (simp_all add: DisabledTests_def FlakyTests_def on_disabled_def on_flaky_def
          banner_count_def py_int_def strip_def is_space_def is_digit_def dec_val_def
          digit_val_def mk_int_def)
  from sentinel_is_sticky[of 2147483647 ?d0 "[''[ RUN      ] Foo.Bar'', ''YOU HAVE 3 DISABLED TESTS'']"]
    kd sd
  have 1: "disabled_after (ProcessLines 2147483647 ?d0
      [''[ RUN      ] Foo.Bar'', ''YOU HAVE 3 DISABLED TESTS'']) = Some (PyStr ''some'')"
    by (auto simp: disabled_after_def)
  from sentinel_is_sticky[of 2147483647 ?f0 "[''YOU HAVE 3 FLAKY TESTS'']"] kf sf
  have 2: "flaky_after (ProcessLines 2147483647 ?f0 [''YOU HAVE 3 FLAKY TESTS''])
             = Some (PyStr ''some'')"
    by (auto simp: flaky_after_def)
  show ?thesis using 1 2 by (simp add: d f)
qed


subsection \<open>Descriptions\<close>

text \<open>
  Claim C10.  For every test name \<open>t\<close>, whatever the parser has seen of it (a test that
  passed, a test that never appeared), \<^verbatim>\<open>FailureDescription(t)\<close> is a non-empty list whose
  first element is the name followed by a colon and a blank.
\<close>

theorem FailureDescription_never_empty:
  "FailureDescription st t \<noteq> [] \<and> hd (FailureDescription st t) = t @ '': ''"
  by (simp add: FailureDescription_def)

text \<open>
  Claim C1, on a log in which \<^verbatim>\<open>Foo.Bar\<close> fails with the output line \<^verbatim>\<open>boom\<close> and passes
  when retried.  After the failure the description holds \<^verbatim>\<open>boom\<close>.  After the retry the
  status is \<^verbatim>\<open>'warning'\<close>, and the description is \<^verbatim>\<open>'Did not complete.'\<close> followed by the
  \<^verbatim>\<open>'RETRY OUTPUT:'\<close> separator: the test-start branch stores the fresh \<^verbatim>\<open>'started'\<close> entry
  before it reads the description back from the table, so the text \<^verbatim>\<open>boom\<close> of the first
  failure is gone.
\<close>

theorem retry_drops_first_failure_text:
  "description_after (ProcessLines 2147483647 init_parser
      [''[ RUN      ] Foo.Bar'', ''boom'', ''[  FAILED  ] Foo.Bar (3 ms)''])
      ''Foo.Bar'' = Some [''Foo.Bar: '', ''boom'']
   \<and> status_after (ProcessLines 2147483647 init_parser
      [''[ RUN      ] Foo.Bar'', ''boom'', ''[  FAILED  ] Foo.Bar (3 ms)'',
       ''RETRYING FAILED TESTS:'', ''[ RUN      ] Foo.Bar'', ''[       OK ] Foo.Bar (1 ms)''])
      ''Foo.Bar'' = Some ''warning''
   \<and> description_after (ProcessLines 2147483647 init_parser
      [''[ RUN      ] Foo.Bar'', ''boom'', ''[  FAILED  ] Foo.Bar (3 ms)'',
       ''RETRYING FAILED TESTS:'', ''[ RUN      ] Foo.Bar'', ''[       OK ] Foo.Bar (1 ms)''])
      ''Foo.Bar'' = Some [''Foo.Bar: '', ''Did not complete.'', [], ''RETRY OUTPUT:'', []]"
  by code_simp

text \<open>
  Claim C4 does not hold for every banner with a positive count: after a banner with the
  count 0 has stored \<^verbatim>\<open>'some'\<close>, the banner \<^verbatim>\<open>YOU HAVE 3 DISABLED TESTS\<close> leaves
  \<^verbatim>\<open>DisabledTests()\<close> at \<^verbatim>\<open>'some'\<close>.
\<close>

theorem banner_after_sentinel_counterexample:
  "disabled_after (ProcessLines 2147483647 init_parser
      [''YOU HAVE 0 DISABLED TESTS'', ''YOU HAVE 3 DISABLED TESTS'']) = Some (PyStr ''some'')"
  by code_simp


subsection \<open>Two starts of a test\<close>

















subsection \<open>The step sequencer\<close>

lemma flattened_dfs: "flattened xs = concat (map dfs_item xs)"
  by (induction xs rule: flattened.induct) simp_all

lemma fixup_loop_filling:
  "l \<noteq> [] \<Longrightarrow> seed_steps (h j) = Some l \<Longrightarrow>
     fixup_loop (Some (j, l)) rest h =
       h(j := (h j)\<lparr>seed_steps := Some (l @ map (\<lambda>b. name (h b)) rest)\<rparr>)"
proof (induction rest arbitrary: l h)
  case Nil
  then have "(h j)\<lparr>seed_steps := Some l\<rparr> = h j" by simp
  then show ?case by simp
next
  case (Cons a rest)
  let ?l = "l @ [name (h a)]"
  let ?h = "h(j := (h j)\<lparr>seed_steps := Some ?l\<rparr>)"
  have n: "name (?h b) = name (h b)" for b by simp
  have "fixup_loop (Some (j, l)) (a # rest) h = fixup_loop (Some (j, ?l)) rest ?h"
    using Cons.prems(1) by (simp add: Let_def)
  also have "\<dots> = ?h(j := (?h j)\<lparr>seed_steps := Some (?l @ map (\<lambda>b. name (?h b)) rest)\<rparr>)"
    by (rule Cons.IH) simp_all
  also have "\<dots> = h(j := (h j)\<lparr>seed_steps := Some (l @ map (\<lambda>b. name (h b)) (a # rest))\<rparr>)"
    unfolding n by simp
  finally show ?case .
qed

lemma fixup_is_synthesize: "fixup_loop None sequence h = synthesize_tag sequence h"
proof (cases sequence)
  case Nil
  then show ?thesis by (simp add: synthesize_tag_def)
next
  case (Cons a rest)
  show ?thesis
  proof (cases "seed_steps (h a) = None")
    case False
    then show ?thesis unfolding Cons by (auto simp: synthesize_tag_def)
  next
    case True
    let ?h = "h(a := (h a)\<lparr>seed_steps := Some [name (h a)]\<rparr>)"
    have n: "name (?h b) = name (h b)" for b by simp
    have "fixup_loop None (a # rest) h = fixup_loop (Some (a, [name (h a)])) rest ?h"
      using True by (simp add: Let_def)
    also have "\<dots> = ?h(a := (?h a)\<lparr>seed_steps := Some ([name (h a)] @ map (\<lambda>b. name (?h b)) rest)\<rparr>)"
      by (rule fixup_loop_filling) simp_all
    also have "\<dots> = synthesize_tag (a # rest) h"
      unfolding n using True by (simp add: synthesize_tag_def)
    finally show ?thesis unfolding Cons .
  qed
qed

lemma untagged_synthesize: "untagged (synthesize_tag sequence h a) = untagged (h a)"
  by (auto simp: synthesize_tag_def untagged_def split: list.splits)

lemma ensure_Sequence:
  "ensure_sequence_of_steps (Sequence xs) h =
     (map (\<lambda>a. (a, synthesize_tag (dfs_leaves (Sequence xs)) h a)) (dfs_leaves (Sequence xs)),
      None, synthesize_tag (dfs_leaves (Sequence xs)) h)"
  by (simp add: fixup_seed_steps_def fixup_is_synthesize flattened_dfs)

lemma ensure_valid:
  "valid_source src \<Longrightarrow>
     \<exists>out h'. ensure_sequence_of_steps src h = (out, None, h')
       \<and> map fst out = dfs_leaves src
       \<and> (\<forall>(a, s) \<in> set out. untagged s = untagged (h a))
       \<and> (\<forall>a. untagged (h' a) = untagged (h a))"
  "list_all valid_source ys \<Longrightarrow>
     \<exists>out h'. ensure_each ys h = (out, None, h')
       \<and> map fst out = concat (map dfs_leaves ys)
       \<and> (\<forall>(a, s) \<in> set out. untagged s = untagged (h a))
       \<and> (\<forall>a. untagged (h' a) = untagged (h a))"
proof (induction src h and ys h rule: ensure_sequence_of_steps_ensure_each.induct)
  case (1 a h)
  then show ?case by simp
next
  case (2 xs h)
  show ?case unfolding ensure_Sequence by (simp add: untagged_synthesize comp_def)
next
  case (3 ys h)
  then show ?case by simp
next
  case (4 h)
  then show ?case by simp
next
  case (5 h)
  then show ?case by simp
next
  case (6 y ys h)
  from "6.prems" have vy: "valid_source y" and vys: "list_all valid_source ys" by simp_all
  from "6.IH"(1)[OF vy] obtain out h1 where
    o: "ensure_sequence_of_steps y h = (out, None, h1)" "map fst out = dfs_leaves y"
       "\<forall>(a, s) \<in> set out. untagged s = untagged (h a)" "\<forall>a. untagged (h1 a) = untagged (h a)"
    by blast
  from "6.IH"(2)[OF o(1)[symmetric] refl refl vys] obtain out' h2 where
    r: "ensure_each ys h1 = (out', None, h2)" "map fst out' = concat (map dfs_leaves ys)"
       "\<forall>(a, s) \<in> set out'. untagged s = untagged (h1 a)" "\<forall>a. untagged (h2 a) = untagged (h1 a)"
    by blast
  show ?case using o r by (auto simp: split_beta)
qed

lemma ensure_each_append:
  "ensure_each pre h = (o1, None, h1) \<Longrightarrow>
     ensure_each (pre @ post) h =
       (let (o2, e, h2) = ensure_each post h1 in (o1 @ o2, e, h2))"
proof (induction pre arbitrary: h o1)
  case Nil
  then show ?case by (simp add: split_beta)
next
  case (Cons y pre)
  from Cons.prems obtain oy hy oz where
    y: "ensure_sequence_of_steps y h = (oy, None, hy)"
    and z: "ensure_each pre hy = (oz, None, h1)" and o: "o1 = oy @ oz"
    by (auto split: prod.splits option.splits)
  obtain o2 e h2 where p: "ensure_each post h1 = (o2, e, h2)"
    by (cases "ensure_each post h1")
  from Cons.IH[OF z] have "ensure_each (pre @ post) hy = (oz @ o2, e, h2)"
    by (simp add: p)
  then show ?case by (simp add: y o p)
qed

text \<open>
  Claim C5.  For a step source that is a step, a sequence nested to any depth, or a
  generator of such sources, \<^verbatim>\<open>ensure_sequence_of_steps\<close> raises nothing and yields the leaf
  steps, object by object, in the order of the depth-first, left-to-right traversal; what
  it yields differs from what the source held in nothing but the \<^verbatim>\<open>'seed_steps'\<close> key.  A
  single step is yielded as it is.  The steps of a sequence are yielded in the state in
  which the tag has been synthesized: if the first step lacks the key, that dictionary
  holds under it the names of all steps of the sequence, in order, and no other dictionary
  has changed; otherwise nothing has changed.  A generator yields what its items yield, one
  item after the other, each item starting from the state that the items before it have
  left; so a sequence that a generator yields after other items has its first step looked
  at in that state, and its steps follow theirs.
\<close>

theorem sequencer_keeps_order:
  "(valid_source src \<longrightarrow>
      (\<exists>out h'. ensure_sequence_of_steps src h = (out, None, h')
         \<and> map fst out = dfs_leaves src
         \<and> (\<forall>(a, s) \<in> set out. untagged s = untagged (h a))))
   \<and> ensure_sequence_of_steps (Sequence xs) h =
       (map (\<lambda>a. (a, synthesize_tag (dfs_leaves (Sequence xs)) h a)) (dfs_leaves (Sequence xs)),
        None, synthesize_tag (dfs_leaves (Sequence xs)) h)
   \<and> (dfs_leaves (Sequence xs) = a # rest \<and> seed_steps (h a) = None \<longrightarrow>
        fst (ensure_sequence_of_steps (Sequence xs) h) =
          map (\<lambda>b. (b, if b = a then (h a)\<lparr>seed_steps := Some (map (\<lambda>c. name (h c)) (a # rest))\<rparr>
                        else h b)) (a # rest))
   \<and> (dfs_leaves (Sequence xs) = a # rest \<and> seed_steps (h a) \<noteq> None \<longrightarrow>
        ensure_sequence_of_steps (Sequence xs) h = (map (\<lambda>b. (b, h b)) (a # rest), None, h))
   \<and> (list_all valid_source pre \<longrightarrow>
        (\<exists>o1 h1 o3 e h3.
           ensure_sequence_of_steps (Generator pre) h = (o1, None, h1)
         \<and> ensure_sequence_of_steps (Generator post)
             (synthesize_tag (dfs_leaves (Sequence xs)) h1) = (o3, e, h3)
         \<and> ensure_sequence_of_steps (Generator (pre @ Sequence xs # post)) h =
             (o1 @ map (\<lambda>a. (a, synthesize_tag (dfs_leaves (Sequence xs)) h1 a))
                     (dfs_leaves (Sequence xs)) @ o3, e, h3)))
   \<and> ensure_sequence_of_steps (Single b) h = ([(b, h b)], None, h)
   \<and> ensure_sequence_of_steps (Generator []) h = ([], None, h)
   \<and> (list_all valid_source pre \<and> valid_source y \<longrightarrow>
        (\<exists>o1 h1 o2 h2 o3 e h3.
           ensure_sequence_of_steps (Generator pre) h = (o1, None, h1)
         \<and> ensure_sequence_of_steps y h1 = (o2, None, h2)
         \<and> ensure_sequence_of_steps (Generator post) h2 = (o3, e, h3)
         \<and> ensure_sequence_of_steps (Generator (pre @ y # post)) h = (o1 @ o2 @ o3, e, h3)))"
proof -
  let ?d = "dfs_leaves (Sequence xs)"
  have 6: "ensure_sequence_of_steps (Single b) h = ([(b, h b)], None, h)"
    "ensure_sequence_of_steps (Generator []) h = ([], None, h)"
    by simp_all
  have 7: "\<exists>o1 h1 o2 h2 o3 e h3.
           ensure_sequence_of_steps (Generator pre) h = (o1, None, h1)
         \<and> ensure_sequence_of_steps y h1 = (o2, None, h2)
         \<and> ensure_sequence_of_steps (Generator post) h2 = (o3, e, h3)
         \<and> ensure_sequence_of_steps (Generator (pre @ y # post)) h = (o1 @ o2 @ o3, e, h3)"
    if v: "list_all valid_source pre" "valid_source y"
  proof -
    from ensure_valid(2)[OF v(1), of h] obtain o1 h1 where
      p: "ensure_each pre h = (o1, None, h1)" by blast
    from ensure_valid(1)[OF v(2), of h1] obtain o2 h2 where
      q: "ensure_sequence_of_steps y h1 = (o2, None, h2)" by blast
    obtain o3 e h3 where r: "ensure_each post h2 = (o3, e, h3)"
      by (cases "ensure_each post h2")
    have "ensure_each (y # post) h1 = (o2 @ o3, e, h3)"
      using q r by (simp del: ensure_sequence_of_steps.simps)
    with ensure_each_append[OF p, of "y # post"]
    have "ensure_each (pre @ y # post) h = (o1 @ o2 @ o3, e, h3)" by simp
    with p q r show ?thesis by simp
  qed
  have 1: "valid_source src \<longrightarrow>
      (\<exists>out h'. ensure_sequence_of_steps src h = (out, None, h')
         \<and> map fst out = dfs_leaves src
         \<and> (\<forall>(a, s) \<in> set out. untagged s = untagged (h a)))"
    using ensure_valid(1)[of src h] by blast
  have 2: "ensure_sequence_of_steps (Sequence xs) h =
       (map (\<lambda>a. (a, synthesize_tag ?d h a)) ?d, None, synthesize_tag ?d h)"
    by (rule ensure_Sequence)
  have 3: "fst (ensure_sequence_of_steps (Sequence xs) h) =
          map (\<lambda>b. (b, if b = a then (h a)\<lparr>seed_steps := Some (map (\<lambda>c. name (h c)) (a # rest))\<rparr>
                        else h b)) (a # rest)"
    if "?d = a # rest" "seed_steps (h a) = None"
    unfolding 2 using that by (simp add: synthesize_tag_def)
  have 4: "ensure_sequence_of_steps (Sequence xs) h = (map (\<lambda>b. (b, h b)) (a # rest), None, h)"
    if "?d = a # rest" "seed_steps (h a) \<noteq> None"
    unfolding 2 using that by (auto simp: synthesize_tag_def)
  have 5: "\<exists>o1 h1 o3 e h3.
           ensure_sequence_of_steps (Generator pre) h = (o1, None, h1)
         \<and> ensure_sequence_of_steps (Generator post) (synthesize_tag ?d h1) = (o3, e, h3)
         \<and> ensure_sequence_of_steps (Generator (pre @ Sequence xs # post)) h =
             (o1 @ map (\<lambda>a. (a, synthesize_tag ?d h1 a)) ?d @ o3, e, h3)"
    if "list_all valid_source pre"
  proof -
    from ensure_valid(2)[OF that, of h] obtain o1 h1 where
      p: "ensure_each pre h = (o1, None, h1)" by blast
    obtain o3 e h3 where
      q: "ensure_each post (synthesize_tag ?d h1) = (o3, e, h3)"
      by (cases "ensure_each post (synthesize_tag ?d h1)")
    have s: "ensure_sequence_of_steps (Sequence xs) h1 =
       (map (\<lambda>a. (a, synthesize_tag ?d h1 a)) ?d, None, synthesize_tag ?d h1)"
      by (rule ensure_Sequence)
    have "ensure_each (Sequence xs # post) h1 =
            (map (\<lambda>a. (a, synthesize_tag ?d h1 a)) ?d @ o3, e, h3)"
      using q by (simp add: s del: ensure_sequence_of_steps.simps)
    with ensure_each_append[OF p, of "Sequence xs # post"]
    have "ensure_each (pre @ Sequence xs # post) h =
            (o1 @ map (\<lambda>a. (a, synthesize_tag ?d h1 a)) ?d @ o3, e, h3)"
      by simp
    with p q show ?thesis by simp
  qed
  from 1 2 3 4 5 6 7 show ?thesis by blast
qed

text \<open>
  A generator that yields a step and then a nested sequence in which one dictionary occurs
  twice.
\<close>

theorem sequencer_keeps_order_witness:
  "fst (ensure_sequence_of_steps
      (Generator [Single 0, Sequence [Nested [Leaf 1], Leaf 2, Leaf 1]])
      ((\<lambda>x. \<lparr>name = ''a'', cmd = [], seed_steps = None, followup_fn = None\<rparr>)
        (1 := \<lparr>name = ''b'', cmd = [], seed_steps = None, followup_fn = None\<rparr>,
         2 := \<lparr>name = ''c'', cmd = [], seed_steps = None, followup_fn = None\<rparr>)))
   = [(0, \<lparr>name = ''a'', cmd = [], seed_steps = None, followup_fn = None\<rparr>),
      (1, \<lparr>name = ''b'', cmd = [], seed_steps = Some [''b'', ''c'', ''b''], followup_fn = None\<rparr>),
      (2, \<lparr>name = ''c'', cmd = [], seed_steps = None, followup_fn = None\<rparr>),
      (1, \<lparr>name = ''b'', cmd = [], seed_steps = Some [''b'', ''c'', ''b''], followup_fn = None\<rparr>)]
   \<and> fst (ensure_sequence_of_steps (Sequence [Nested [Leaf 1], Leaf 2, Leaf 1])
      ((\<lambda>x. \<lparr>name = ''a'', cmd = [], seed_steps = None, followup_fn = None\<rparr>)
        (1 := \<lparr>name = ''b'', cmd = [], seed_steps = None, followup_fn = None\<rparr>,
         2 := \<lparr>name = ''c'', cmd = [], seed_steps = None, followup_fn = None\<rparr>)))
   = [(1, \<lparr>name = ''b'', cmd = [], seed_steps = Some [''b'', ''c'', ''b''], followup_fn = None\<rparr>),
      (2, \<lparr>name = ''c'', cmd = [], seed_steps = None, followup_fn = None\<rparr>),
      (1, \<lparr>name = ''b'', cmd = [], seed_steps = Some [''b'', ''c'', ''b''], followup_fn = None\<rparr>)]"
proof -
  let ?a = "\<lparr>name = ''a'', cmd = [], seed_steps = None, followup_fn = None\<rparr>"
  let ?b = "\<lparr>name = ''b'', cmd = [], seed_steps = None, followup_fn = None\<rparr>"
  let ?c = "\<lparr>name = ''c'', cmd = [], seed_steps = None, followup_fn = None\<rparr>"
  let ?h = "(\<lambda>x. ?a)(1 := ?b, 2 := ?c) :: step_heap"
  let ?xs = "[Nested [Leaf 1], Leaf 2, Leaf 1]"
  note t = sequencer_keeps_order
             [of "Generator [Single 0, Sequence ?xs]" ?h ?xs 1 "[2, 1]" "[Single 0]" "[]" 0
                 "Single 0"]
  have v: "list_all valid_source [Single 0]" by simp
  from t v obtain o1 h1 o3 e h3 where
    p: "ensure_sequence_of_steps (Generator [Single 0]) ?h = (o1, None, h1)"
    and q: "ensure_sequence_of_steps (Generator [])
              (synthesize_tag (dfs_leaves (Sequence ?xs)) h1) = (o3, e, h3)"
    and r: "ensure_sequence_of_steps (Generator ([Single 0] @ Sequence ?xs # [])) ?h =
              (o1 @ map (\<lambda>a. (a, synthesize_tag (dfs_leaves (Sequence ?xs)) h1 a))
                      (dfs_leaves (Sequence ?xs)) @ o3, e, h3)"
    by blast
  from p have o1: "o1 = [(0, ?a)]" and h1: "h1 = ?h" by simp_all
  from q have o3: "o3 = []" by simp
  have g: "fst (ensure_sequence_of_steps (Generator [Single 0, Sequence ?xs]) ?h) =
             [(0, ?a), (1, ?b\<lparr>seed_steps := Some [''b'', ''c'', ''b'']\<rparr>), (2, ?c),
              (1, ?b\<lparr>seed_steps := Some [''b'', ''c'', ''b'']\<rparr>)]"
    using r unfolding o1 h1 o3 by (simp add: synthesize_tag_def)
  have d: "dfs_leaves (Sequence ?xs) = 1 # [2, 1]" "seed_steps (?h 1) = None" by simp_all
  from t d have "fst (ensure_sequence_of_steps (Sequence ?xs) ?h) =
      map (\<lambda>b. (b, if b = 1 then (?h 1)\<lparr>seed_steps := Some (map (\<lambda>c. name (?h c)) (1 # [2, 1]))\<rparr>
                    else ?h b)) (1 # [2, 1])"
    by blast
  then have s: "fst (ensure_sequence_of_steps (Sequence ?xs) ?h) =
             [(1, ?b\<lparr>seed_steps := Some [''b'', ''c'', ''b'']\<rparr>), (2, ?c),
              (1, ?b\<lparr>seed_steps := Some [''b'', ''c'', ''b'']\<rparr>)]"
    by simp
  show ?thesis using g s by simp
qed

subsection \<open>The status a step ends with\<close>

lemma statuses_set_append: "statuses_set (a @ b) = statuses_set a @ statuses_set b"
  by (induction a rule: statuses_set.induct) simp_all

lemma apply_pres_op_status:
  assumes "apply_pres_op x (p, st) = Inr (p', st')"
  shows "finalized p' = finalized p"
    and "status p' = (if statuses_set [x] = [] then status p else Some (last (statuses_set [x])))"
  using assms
  by (cases x; auto simp: set_status_def set_step_text_def set_step_summary_text_def Let_def
        split: if_splits sum.splits prod.splits)+

lemma apply_pres_ops_status:
  "apply_pres_ops ops (p, st) = (None, p', st') \<Longrightarrow>
     finalized p' = finalized p
     \<and> status p' = (if statuses_set ops = [] then status p else Some (last (statuses_set ops)))"
proof (induction ops arbitrary: p st)
  case Nil
  then show ?case by simp
next
  case (Cons x ops)
  from Cons.prems obtain p1 st1 where
    1: "apply_pres_op x (p, st) = Inr (p1, st1)"
    and 2: "apply_pres_ops ops (p1, st1) = (None, p', st')"
    by (auto split: sum.splits)
  have c: "statuses_set (x # ops) = statuses_set [x] @ statuses_set ops"
    using statuses_set_append[of "[x]" ops] by simp
  from apply_pres_op_status[OF 1] Cons.IH[OF 2] show ?case
    unfolding c by (auto simp: last_append)
qed

lemma apply_pres_op_ok:
  assumes "\<not> finalized p" "set (statuses_set [x]) \<subseteq> STATUSES"
  shows "\<exists>p' st'. apply_pres_op x (p, st) = Inr (p', st') \<and> \<not> finalized p'"
  using assms
  by (cases x)
     (auto simp: set_status_def set_step_text_def set_step_summary_text_def Let_def logs_def
        perf_logs_def new_list_def split: prod.splits)

lemma apply_pres_ops_ok:
  "\<not> finalized p \<Longrightarrow> set (statuses_set ops) \<subseteq> STATUSES \<Longrightarrow>
     \<exists>p' st'. apply_pres_ops ops (p, st) = (None, p', st') \<and> \<not> finalized p'"
proof (induction ops arbitrary: p st)
  case Nil
  then show ?case by simp
next
  case (Cons x ops)
  have c: "statuses_set (x # ops) = statuses_set [x] @ statuses_set ops"
    using statuses_set_append[of "[x]" ops] by simp
  from Cons.prems(2) have sx: "set (statuses_set [x]) \<subseteq> STATUSES"
    and so: "set (statuses_set ops) \<subseteq> STATUSES"
    unfolding c by simp_all
  from apply_pres_op_ok[OF Cons.prems(1) sx, of st] obtain p1 st1 where
    1: "apply_pres_op x (p, st) = Inr (p1, st1)" "\<not> finalized p1" by blast
  from Cons.IH[OF 1(2) so, of st1] 1(1) show ?case by simp
qed

lemma map_of_od_set: "map_of (od_set k v h) k = Some v"
  by (induction h) auto

lemma finalize_presentation: "fst (finalize p st) = p\<lparr>finalized := True\<rparr>"
  by (simp add: finalize_def Let_def split: prod.splits)

lemma fresh_presentation:
  "status (fst (StepPresentation st)) = None" "\<not> finalized (fst (StepPresentation st))"
  by (simp_all add: StepPresentation_def Let_def split: prod.splits)

lemma FAILURE_is_status: "''FAILURE'' \<in> STATUSES"
  by (simp add: STATUSES_def)

lemma step_callback_result:
  assumes "step_callback tm s phs rc rs = (None, rs')"
  shows "recorded_status (None, rs') (name s) =
           Some (if statuses_set (callback_ops s phs) = []
                 then (if rc > 0 then Some ''FAILURE'' else None)
                 else Some (last (statuses_set (callback_ops s phs))))"
proof -
  obtain p0 st0 where i: "StepPresentation (objects rs) = (p0, st0)"
    by (cases "StepPresentation (objects rs)")
  have f0: "status p0 = None" "\<not> finalized p0"
    using fresh_presentation[of "objects rs"] i by simp_all
  define p1 where "p1 = (if rc > 0 then p0\<lparr>status := Some ''FAILURE''\<rparr> else p0)"
  have s1: "(if rc > 0 then (case set_status p0 ''FAILURE'' of Inl e \<Rightarrow> (Some e, p0) | Inr p \<Rightarrow> (None, p))
             else (None, p0)) = (None, p1)"
    using f0 by (simp add: p1_def set_status_def FAILURE_is_status)
  have st1: "status p1 = (if rc > 0 then Some ''FAILURE'' else None)"
    using f0 by (simp add: p1_def)
  let ?A = "concat (map ph_step_finished (concat (map snd phs)))"
  let ?B = "case followup_fn s of None \<Rightarrow> [] | Some ops \<Rightarrow> ops"
  obtain e2 p2 st2 where a: "apply_pres_ops ?A (p1, st0) = (e2, p2, st2)"
    by (cases "apply_pres_ops ?A (p1, st0)")
  obtain e3 p3 st3 where b: "apply_pres_ops ?B (p2, st2) = (e3, p3, st3)"
    by (cases "apply_pres_ops ?B (p2, st2)")
  obtain p4 st4 fev where f: "finalize p3 st3 = (p4, st4, fev)"
    by (cases "finalize p3 st3")
  from assms have e2: "e2 = None" and e3: "e3 = None"
    and h: "step_history rs' =
              od_set (name s)
                \<lparr>step_of = s\<lparr>followup_fn := None\<rparr>, retcode = rc, presentation = p4,
                  additions = map fst phs\<rparr> (step_history rs)"
    unfolding step_callback_def Let_def i s1 prod.case option.case
    by (auto simp: a b f split: option.splits)
  have p4: "p4 = p3\<lparr>finalized := True\<rparr>"
    using finalize_presentation[of p3 st3] f by simp
  from apply_pres_ops_status[OF a[unfolded e2]] apply_pres_ops_status[OF b[unfolded e3]]
  have "status p4 = (if statuses_set (?A @ ?B) = [] then status p1
                     else Some (last (statuses_set (?A @ ?B))))"
    unfolding p4 statuses_set_append by (auto simp: last_append)
  then show ?thesis
    by (simp add: recorded_status_def h map_of_od_set st1 callback_ops_def)
qed

lemma step_callback_ok:
  assumes "set (statuses_set (callback_ops s phs)) \<subseteq> STATUSES"
  shows "fst (step_callback tm s phs rc rs) = None"
proof -
  obtain p0 st0 where i: "StepPresentation (objects rs) = (p0, st0)"
    by (cases "StepPresentation (objects rs)")
  have f0: "status p0 = None" "\<not> finalized p0"
    using fresh_presentation[of "objects rs"] i by simp_all
  define p1 where "p1 = (if rc > 0 then p0\<lparr>status := Some ''FAILURE''\<rparr> else p0)"
  have s1: "(if rc > 0 then (case set_status p0 ''FAILURE'' of Inl e \<Rightarrow> (Some e, p0) | Inr p \<Rightarrow> (None, p))
             else (None, p0)) = (None, p1)"
    using f0 by (simp add: p1_def set_status_def FAILURE_is_status)
  have n1: "\<not> finalized p1" using f0 by (simp add: p1_def)
  let ?A = "concat (map ph_step_finished (concat (map snd phs)))"
  let ?B = "case followup_fn s of None \<Rightarrow> [] | Some ops \<Rightarrow> ops"
  from assms have sa: "set (statuses_set ?A) \<subseteq> STATUSES" and sb: "set (statuses_set ?B) \<subseteq> STATUSES"
    by (simp_all add: callback_ops_def statuses_set_append)
  from apply_pres_ops_ok[OF n1 sa, of st0] obtain p2 st2 where
    a: "apply_pres_ops ?A (p1, st0) = (None, p2, st2)" "\<not> finalized p2" by blast
  from apply_pres_ops_ok[OF a(2) sb, of st2] obtain p3 st3 where
    b: "apply_pres_ops ?B (p2, st2) = (None, p3, st3)" by blast
  show ?thesis
    unfolding step_callback_def Let_def i s1 prod.case option.case
    by (simp add: a b split: prod.splits)
qed

text \<open>
  Claim C3, as the code has it.  When the callback of a step returns, the status of the
  recorded presentation is the last status that the placeholders and the follow-up function
  set, if they set one; otherwise it is \<^verbatim>\<open>'FAILURE'\<close> for a return code above zero and unset
  for zero and for a negative return code.  The callback raises nothing when every status
  it is asked to set is one of the four statuses.
\<close>

theorem callback_status:
  "(step_callback tm s phs rc rs = (None, rs') \<longrightarrow>
      recorded_status (None, rs') (name s) =
        Some (if statuses_set (callback_ops s phs) = []
              then (if rc > 0 then Some ''FAILURE'' else None)
              else Some (last (statuses_set (callback_ops s phs)))))
   \<and> (set (statuses_set (callback_ops s phs)) \<subseteq> STATUSES \<longrightarrow>
      fst (step_callback tm s phs rc rs) = None)"
  using step_callback_result[of tm s phs rc rs rs'] step_callback_ok[of s phs tm rc rs]
  by blast

text \<open>
  Claim C3 speaks of every non-zero return code.  With the return code \<open>-9\<close> (a process
  killed by a signal) and no follow-up function, the recorded status stays unset.
\<close>

theorem negative_retcode_counterexample:
  "recorded_status
     (step_callback False \<lparr>name = ''compile'', cmd = [], seed_steps = None, followup_fn = None\<rparr>
        [] (- 9) new_run) ''compile'' = Some None"
  by (simp add: recorded_status_def step_callback_def StepPresentation_def new_dict_def
        new_run_def empty_store_def finalize_def logs_def perf_logs_def deepcopy_def Let_def)

text \<open>
  A step that returns 1, the same step with a follow-up function that sets
  \<^verbatim>\<open>'WARNING'\<close>, and a step that returns 0.
\<close>

theorem callback_status_witness:
  "recorded_status
     (step_callback False \<lparr>name = ''compile'', cmd = [], seed_steps = None, followup_fn = None\<rparr>
        [] 1 new_run) ''compile'' = Some (Some ''FAILURE'')
   \<and> recorded_status
     (step_callback False
        \<lparr>name = ''compile'', cmd = [], seed_steps = None,
          followup_fn = Some [SetStepText ''flaky'', SetStatus ''WARNING'']\<rparr>
        [] 1 new_run) ''compile'' = Some (Some ''WARNING'')
   \<and> recorded_status
     (step_callback False \<lparr>name = ''compile'', cmd = [], seed_steps = None, followup_fn = None\<rparr>
        [] 0 new_run) ''compile'' = Some None"
proof -
  let ?s = "\<lparr>name = ''compile'', cmd = [], seed_steps = None, followup_fn = None\<rparr>"
  let ?w = "\<lparr>name = ''compile'', cmd = [], seed_steps = None,
             followup_fn = Some [SetStepText ''flaky'', SetStatus ''WARNING'']\<rparr>"
  have r: "recorded_status (step_callback False s [] rc new_run) (name s) =
             Some (if statuses_set (callback_ops s []) = []
                   then (if rc > 0 then Some ''FAILURE'' else None)
                   else Some (last (statuses_set (callback_ops s []))))"
    if "set (statuses_set (callback_ops s [])) \<subseteq> STATUSES" for s rc
  proof -
    let ?X = "step_callback False s [] rc new_run"
    from callback_status[of False s "[]" rc new_run "snd ?X"] that
    have "fst ?X = None" by blast
    then have x: "?X = (None, snd ?X)" by (metis prod.collapse)
    with callback_status[of False s "[]" rc new_run "snd ?X"] show ?thesis by simp
  qed
  have "recorded_status (step_callback False ?s [] 1 new_run) (name ?s) = Some (Some ''FAILURE'')"
    by (subst r) (simp_all add: callback_ops_def)
  moreover
  have "recorded_status (step_callback False ?w [] 1 new_run) (name ?w) = Some (Some ''WARNING'')"
    by (subst r) (simp_all add: callback_ops_def STATUSES_def)
  moreover
  have "recorded_status (step_callback False ?s [] 0 new_run) (name ?s) = Some None"
    by (subst r) (simp_all add: callback_ops_def)
  ultimately show ?thesis by simp
qed

subsection \<open>The step history\<close>

lemma render_step_name: "name (fst (render_step s)) = name s"
  by (simp add: render_step_def)

lemma od_set_new: "k \<notin> fst ` set h \<Longrightarrow> od_set k v h = h @ [(k, v)]"
  by (induction h) auto

lemma step_callback_history:
  assumes "step_callback tm s phs rc rs = (None, rs1)" "name s \<notin> fst ` set (step_history rs)"
  shows "\<exists>d. step_history rs1 = step_history rs @ [(name s, d)] \<and> name (step_of d) = name s"
proof -
  obtain p0 st0 where i: "StepPresentation (objects rs) = (p0, st0)"
    by (cases "StepPresentation (objects rs)")
  from assms(1) obtain d where
    "step_history rs1 = od_set (name s) d (step_history rs)" "name (step_of d) = name s"
    unfolding step_callback_def Let_def i prod.case
    by (auto split: option.splits prod.splits if_splits sum.splits)
  then show ?thesis using od_set_new[OF assms(2)] by auto
qed

lemma run_loop_history:
  "run_loop exec ubf td rs steps = (None, td', rs') \<Longrightarrow>
     \<exists>ds. step_history rs' = step_history rs @ zip (map name steps) ds
        \<and> length ds = length steps
        \<and> map (\<lambda>d. name (step_of d)) ds = map name steps
        \<and> distinct (map name steps)
        \<and> set (map name steps) \<inter> fst ` set (step_history rs) = {}"
proof (induction steps arbitrary: td rs)
  case Nil
  then show ?case by simp
next
  case (Cons s0 rest)
  obtain s phs where r: "render_step s0 = (s, phs)" by (cases "render_step s0")
  have n: "name s = name s0" using render_step_name[of s0] r by simp
  let ?item = "case td of None \<Rightarrow> None
               | Some d \<Rightarrow> Some (case map_of d (name s0) of None \<Rightarrow> None | Some r \<Rightarrow> r)"
  let ?td = "case td of None \<Rightarrow> None | Some d \<Rightarrow> Some (od_del (name s0) d)"
  let ?rc = "case ?item of None \<Rightarrow> exec s | Some r \<Rightarrow> (case r of None \<Rightarrow> 0 | Some c \<Rightarrow> c)"
  from Cons.prems have fresh: "name s \<notin> fst ` set (step_history rs)"
    by (auto simp: Let_def r split: if_splits)
  from Cons.prems fresh obtain rs1 where
    c: "step_callback (?item \<noteq> None) s phs ?rc rs = (None, rs1)"
    and l: "run_loop exec ubf ?td (rs1\<lparr>failed := ubf (failed rs1) ?rc s\<rparr>) rest = (None, td', rs')"
    by (auto simp: Let_def r split: if_splits option.splits prod.splits)
  from step_callback_history[OF c fresh] obtain d where
    h1: "step_history rs1 = step_history rs @ [(name s, d)]" "name (step_of d) = name s"
    by blast
  from Cons.IH[OF l] obtain ds where
    ih: "step_history rs' = step_history (rs1\<lparr>failed := ubf (failed rs1) ?rc s\<rparr>) @ zip (map name rest) ds"
    "length ds = length rest" "map (\<lambda>d. name (step_of d)) ds = map name rest"
    "distinct (map name rest)"
    "set (map name rest) \<inter> fst ` set (step_history (rs1\<lparr>failed := ubf (failed rs1) ?rc s\<rparr>)) = {}"
    by blast
  show ?case
    using ih h1 fresh n
    by (intro exI[of _ "d # ds"]) (auto simp: image_Un)
qed

lemma run_loop_duplicate:
  assumes "name s \<in> fst ` set (step_history rs)"
  shows "run_loop exec ubf td rs (s # rest) =
           (Some (AssertionError (dup_msg (name s))),
            (case td of None \<Rightarrow> None | Some d \<Rightarrow> Some (od_del (name s) d)), rs)"
  using assms by (simp add: Let_def render_step_def)

lemma run_loop_append:
  "run_loop exec ubf td rs pre = (None, td1, rs1) \<Longrightarrow>
     run_loop exec ubf td rs (pre @ post) = run_loop exec ubf td1 rs1 post"
proof (induction pre arbitrary: td rs)
  case Nil
  then show ?case by simp
next
  case (Cons s0 pre)
  obtain s phs where r: "render_step s0 = (s, phs)" by (cases "render_step s0")
  let ?item = "case td of None \<Rightarrow> None
               | Some d \<Rightarrow> Some (case map_of d (name s0) of None \<Rightarrow> None | Some r \<Rightarrow> r)"
  let ?td = "case td of None \<Rightarrow> None | Some d \<Rightarrow> Some (od_del (name s0) d)"
  let ?rc = "case ?item of None \<Rightarrow> exec s | Some r \<Rightarrow> (case r of None \<Rightarrow> 0 | Some c \<Rightarrow> c)"
  from Cons.prems have fresh: "name s \<notin> fst ` set (step_history rs)"
    by (auto simp: Let_def r split: if_splits)
  from Cons.prems fresh obtain rs2 where
    c: "step_callback (?item \<noteq> None) s phs ?rc rs = (None, rs2)"
    and l: "run_loop exec ubf ?td (rs2\<lparr>failed := ubf (failed rs2) ?rc s\<rparr>) pre = (None, td1, rs1)"
    by (auto simp: Let_def r split: if_splits option.splits prod.splits)
  from Cons.IH[OF l] show ?case
    using fresh c by (simp add: Let_def r)
qed

text \<open>
  Claim C7.  A step whose name is a key of the history stops the loop with the assertion
  error for a duplicate name, and the run state is what it was: nothing is recorded for
  the step.  In particular, when the steps before it have run and one of them has its
  name, the loop ends in that error with the state those steps left.  When the loop ends
  without an error from an empty history, the keys of the history are the names of the
  steps in the order in which they ran, \<^verbatim>\<open>nth_step\<close> gives the result of the \<open>i\<close>-th step and
  \<^verbatim>\<open>None\<close> beyond the last, and \<^verbatim>\<open>last_step\<close> gives the result of the last step.
\<close>

theorem history_rejects_duplicates_and_keeps_order:
  "(name s \<in> fst ` set (step_history rs) \<longrightarrow>
      run_loop exec ubf td rs (s # rest) =
        (Some (AssertionError (dup_msg (name s))),
         (case td of None \<Rightarrow> None | Some d \<Rightarrow> Some (od_del (name s) d)), rs))
   \<and> (run_loop exec ubf td rs pre = (None, td1, rs1) \<and> name s \<in> set (map name pre) \<longrightarrow>
      fst (run_loop exec ubf td rs (pre @ s # rest)) = Some (AssertionError (dup_msg (name s)))
      \<and> snd (snd (run_loop exec ubf td rs (pre @ s # rest))) = rs1)
   \<and> (run_loop exec ubf td new_run steps = (None, td', rs') \<longrightarrow>
      map fst (step_history rs') = map name steps
      \<and> (\<forall>i<length steps. \<exists>d. nth_step (step_history rs') i = Some d
                              \<and> name (step_of d) = name (steps ! i))
      \<and> nth_step (step_history rs') (length steps) = None
      \<and> (steps = [] \<longrightarrow> last_step (step_history rs') = None)
      \<and> (steps \<noteq> [] \<longrightarrow> (\<exists>d. last_step (step_history rs') = Some d
                              \<and> name (step_of d) = name (last steps))))"
proof (intro conjI impI)
  assume "name s \<in> fst ` set (step_history rs)"
  then show "run_loop exec ubf td rs (s # rest) =
        (Some (AssertionError (dup_msg (name s))),
         (case td of None \<Rightarrow> None | Some d \<Rightarrow> Some (od_del (name s) d)), rs)"
    by (rule run_loop_duplicate)
next
  assume a: "run_loop exec ubf td rs pre = (None, td1, rs1) \<and> name s \<in> set (map name pre)"
  from run_loop_history[of exec ubf td rs pre td1 rs1] a obtain ds where
    h: "step_history rs1 = step_history rs @ zip (map name pre) ds" "length ds = length pre"
    by blast
  have "fst ` set (zip (map name pre) ds) = set (map name pre)"
    using h(2) by (metis length_map map_fst_zip set_map)
  with a h have k: "name s \<in> fst ` set (step_history rs1)" by (simp add: image_Un)
  have e: "run_loop exec ubf td rs (pre @ s # rest) = run_loop exec ubf td1 rs1 (s # rest)"
    using a by (intro run_loop_append) simp
  show "fst (run_loop exec ubf td rs (pre @ s # rest)) = Some (AssertionError (dup_msg (name s)))"
    unfolding e run_loop_duplicate[OF k] by simp
  show "snd (snd (run_loop exec ubf td rs (pre @ s # rest))) = rs1"
    unfolding e run_loop_duplicate[OF k] by simp
next
  assume a: "run_loop exec ubf td new_run steps = (None, td', rs')"
  from run_loop_history[OF a] obtain ds where
    h: "step_history rs' = zip (map name steps) ds" "length ds = length steps"
    "map (\<lambda>d. name (step_of d)) ds = map name steps"
    by (auto simp: new_run_def)
  show "map fst (step_history rs') = map name steps"
    using h by simp
  show "\<forall>i<length steps. \<exists>d. nth_step (step_history rs') i = Some d
                              \<and> name (step_of d) = name (steps ! i)"
  proof (intro allI impI)
    fix i assume i: "i < length steps"
    have "name (step_of (ds ! i)) = map (\<lambda>d. name (step_of d)) ds ! i"
      using i h(2) by simp
    also have "\<dots> = name (steps ! i)" unfolding h(3) using i by simp
    finally show "\<exists>d. nth_step (step_history rs') i = Some d \<and> name (step_of d) = name (steps ! i)"
      using i h by (simp add: nth_step_def)
  qed
  show "nth_step (step_history rs') (length steps) = None"
    using h by (simp add: nth_step_def)
  show "last_step (step_history rs') = None" if "steps = []"
    using that h by (simp add: last_step_def)
  show "\<exists>d. last_step (step_history rs') = Some d \<and> name (step_of d) = name (last steps)"
    if ne: "steps \<noteq> []"
  proof -
    let ?n = "length steps - 1"
    have n: "?n < length steps" using ne by simp
    have z: "step_history rs' \<noteq> []" using h ne by (cases steps; cases ds) auto
    have "last (step_history rs') = step_history rs' ! ?n"
      using z h by (simp add: last_conv_nth)
    also have "\<dots> = (name (steps ! ?n), ds ! ?n)" using n h by simp
    finally have l: "snd (last (step_history rs')) = ds ! ?n" by simp
    have "name (step_of (ds ! ?n)) = map (\<lambda>d. name (step_of d)) ds ! ?n"
      using n h(2) by simp
    also have "\<dots> = name (steps ! ?n)" unfolding h(3) using n by simp
    also have "\<dots> = name (last steps)" using ne by (simp add: last_conv_nth)
    finally show ?thesis using z l by (simp add: last_step_def)
  qed
qed

lemma run_loop_ok:
  "distinct (map name steps) \<Longrightarrow> set (map name steps) \<inter> fst ` set (step_history rs) = {} \<Longrightarrow>
   \<forall>s\<in>set steps. set (statuses_set (callback_ops (fst (render_step s)) (snd (render_step s))))
                     \<subseteq> STATUSES \<Longrightarrow>
   fst (run_loop exec ubf td rs steps) = None"
proof (induction steps arbitrary: td rs)
  case Nil
  then show ?case by simp
next
  case (Cons s0 rest)
  obtain s phs where r: "render_step s0 = (s, phs)" by (cases "render_step s0")
  have n: "name s = name s0" using render_step_name[of s0] r by simp
  let ?item = "case td of None \<Rightarrow> None
               | Some d \<Rightarrow> Some (case map_of d (name s0) of None \<Rightarrow> None | Some r \<Rightarrow> r)"
  let ?td = "case td of None \<Rightarrow> None | Some d \<Rightarrow> Some (od_del (name s0) d)"
  let ?rc = "case ?item of None \<Rightarrow> exec s | Some r \<Rightarrow> (case r of None \<Rightarrow> 0 | Some c \<Rightarrow> c)"
  from Cons.prems(2) have fresh: "name s \<notin> fst ` set (step_history rs)"
    using n by auto
  from Cons.prems(3) have v: "set (statuses_set (callback_ops s phs)) \<subseteq> STATUSES"
    using r by simp
  from step_callback_ok[OF v, of "?item \<noteq> None" ?rc rs] obtain rs1 where
    c: "step_callback (?item \<noteq> None) s phs ?rc rs = (None, rs1)"
    by (metis prod.collapse)
  from step_callback_history[OF c fresh] obtain d where
    h: "step_history rs1 = step_history rs @ [(name s, d)]" by blast
  let ?rs = "rs1\<lparr>failed := ubf (failed rs1) ?rc s\<rparr>"
  have "set (map name rest) \<inter> fst ` set (step_history ?rs) = {}"
    using Cons.prems(1,2) h n by (auto simp: image_Un)
  with Cons.IH[of ?rs ?td] Cons.prems(1,3)
  have "fst (run_loop exec ubf ?td ?rs rest) = None" by simp
  then show ?case using fresh c by (simp add: Let_def r)
qed

text \<open>A run of the steps \<^verbatim>\<open>a\<close> and \<^verbatim>\<open>b\<close>, and a run in which \<^verbatim>\<open>a\<close> comes twice.\<close>

theorem history_rejects_duplicates_and_keeps_order_witness:
  "map fst (step_history (snd (snd (run_loop (\<lambda>s. 0) (\<lambda>f rc s. f \<or> rc \<noteq> 0) None new_run
       [\<lparr>name = ''a'', cmd = [], seed_steps = None, followup_fn = None\<rparr>,
        \<lparr>name = ''b'', cmd = [], seed_steps = None, followup_fn = None\<rparr>]))))
     = [''a'', ''b'']
   \<and> fst (run_loop (\<lambda>s. 0) (\<lambda>f rc s. f \<or> rc \<noteq> 0) None new_run
       [\<lparr>name = ''a'', cmd = [], seed_steps = None, followup_fn = None\<rparr>,
        \<lparr>name = ''a'', cmd = [Tok ''x''], seed_steps = None, followup_fn = None\<rparr>])
     = Some (AssertionError (dup_msg ''a''))
   \<and> map fst (step_history (snd (snd (run_loop (\<lambda>s. 0) (\<lambda>f rc s. f \<or> rc \<noteq> 0) None new_run
       [\<lparr>name = ''a'', cmd = [], seed_steps = None, followup_fn = None\<rparr>,
        \<lparr>name = ''a'', cmd = [Tok ''x''], seed_steps = None, followup_fn = None\<rparr>]))))
     = [''a'']"
proof -
  let ?a = "\<lparr>name = ''a'', cmd = [], seed_steps = None, followup_fn = None\<rparr>"
  let ?a' = "\<lparr>name = ''a'', cmd = [Tok ''x''], seed_steps = None, followup_fn = None\<rparr>"
  let ?b = "\<lparr>name = ''b'', cmd = [], seed_steps = None, followup_fn = None\<rparr>"
  let ?run = "run_loop (\<lambda>s. 0) (\<lambda>f rc s. f \<or> rc \<noteq> 0) None new_run"
  have one: "fst (?run [?a]) = None"
    by (rule run_loop_ok) (simp_all add: new_run_def callback_ops_def render_step_def)
  have two: "fst (?run [?a, ?b]) = None"
    by (rule run_loop_ok) (simp_all add: new_run_def callback_ops_def render_step_def)
  obtain t1 r1 where x1: "?run [?a] = (None, t1, r1)"
    using one by (cases "?run [?a]") auto
  obtain t2 r2 where x2: "?run [?a, ?b] = (None, t2, r2)"
    using two by (cases "?run [?a, ?b]") auto
  from history_rejects_duplicates_and_keeps_order
         [of ?a r1 "\<lambda>s. 0" "\<lambda>f rc s. f \<or> rc \<noteq> 0" None "[]" "[]"
             None new_run "[?a, ?b]" t2 r2]
    x2
  have 1: "map fst (step_history r2) = [''a'', ''b'']"
    by (simp del: run_loop.simps)
  from history_rejects_duplicates_and_keeps_order
         [of ?a' new_run "\<lambda>s. 0" "\<lambda>f rc s. f \<or> rc \<noteq> 0" None "[]" "[?a]"
             t1 r1 "[?a]" t1 r1] x1
  have 2: "fst (?run [?a, ?a']) = Some (AssertionError (dup_msg ''a''))"
    and 3: "snd (snd (?run [?a, ?a'])) = r1"
    and 4: "map fst (step_history r1) = [''a'']"
    by (simp_all del: run_loop.simps)
  show ?thesis unfolding x2 2 3 using 1 4 by simp
qed

subsection \<open>Copies of the logs\<close>

lemma new_list_props:
  assumes "new_list xs st = (a, st1)"
  shows "a = next_list st" "next_list st1 = Suc (next_list st)" "list_objs st1 a = xs"
    "\<And>b. b \<noteq> next_list st \<Longrightarrow> list_objs st1 b = list_objs st b"
    "dict_objs st1 = dict_objs st" "next_dict st1 = next_dict st"
  using assms by (auto simp: new_list_def)

lemma deepcopy_items_props:
  assumes "deepcopy_items memo items st = (items', st')"
    and "\<forall>(k, a) \<in> set items. a < next_list st"
    and "\<forall>(a, a') \<in> set memo. a < next_list st \<and> a' < next_list st \<and> L \<le> a'
            \<and> list_objs st a' = list_objs st a"
    and "L \<le> next_list st"
  shows "dict_objs st' = dict_objs st \<and> next_dict st' = next_dict st
       \<and> next_list st \<le> next_list st'
       \<and> (\<forall>b < next_list st. list_objs st' b = list_objs st b)
       \<and> (\<forall>(k, a') \<in> set items'. L \<le> a' \<and> a' < next_list st')
       \<and> map (\<lambda>(k, a). (k, list_objs st' a)) items' = map (\<lambda>(k, a). (k, list_objs st a)) items"
  using assms
proof (induction memo items st arbitrary: items' st' rule: deepcopy_items.induct)
  case (1 memo st)
  then show ?case by simp
next
  case (2 memo k a rest st)
  from "2.prems"(2) have a: "a < next_list st" and rest: "\<forall>(k, a) \<in> set rest. a < next_list st"
    by auto
  show ?case
  proof (cases "map_of memo a")
    case (Some a')
    obtain its st2 where r: "deepcopy_items memo rest st = (its, st2)"
      by (cases "deepcopy_items memo rest st")
    from "2.prems"(1) Some r have e: "items' = (k, a') # its" "st' = st2" by auto
    from Some have m: "(a, a') \<in> set memo" by (rule map_of_SomeD)
    with "2.prems"(3) have a': "a' < next_list st" "L \<le> a'" "list_objs st a' = list_objs st a"
      by auto
    have "dict_objs st2 = dict_objs st \<and> next_dict st2 = next_dict st
       \<and> next_list st \<le> next_list st2
       \<and> (\<forall>b < next_list st. list_objs st2 b = list_objs st b)
       \<and> (\<forall>(k, a') \<in> set its. L \<le> a' \<and> a' < next_list st2)
       \<and> map (\<lambda>(k, a). (k, list_objs st2 a)) its = map (\<lambda>(k, a). (k, list_objs st a)) rest"
      using Some r rest "2.prems"(3,4) by (intro "2.IH"(2)) auto
    with a' show ?thesis
      unfolding e by auto
  next
    case None
    obtain n st1 where nl: "new_list (list_objs st a) st = (n, st1)"
      by (cases "new_list (list_objs st a) st")
    note p = new_list_props[OF nl]
    obtain its st2 where r: "deepcopy_items ((a, n) # memo) rest st1 = (its, st2)"
      by (cases "deepcopy_items ((a, n) # memo) rest st1")
    from "2.prems"(1) None nl r have e: "items' = (k, n) # its" "st' = st2" by auto
    have rest1: "\<forall>(k, a) \<in> set rest. a < next_list st1"
      using rest p(2) by auto
    have memo1: "\<forall>(b, b') \<in> set ((a, n) # memo). b < next_list st1 \<and> b' < next_list st1
                   \<and> L \<le> b' \<and> list_objs st1 b' = list_objs st1 b"
      using "2.prems"(3,4) a p by (auto simp: less_Suc_eq)
    have L1: "L \<le> next_list st1" using "2.prems"(4) p(2) by simp
    have "dict_objs st2 = dict_objs st1 \<and> next_dict st2 = next_dict st1
       \<and> next_list st1 \<le> next_list st2
       \<and> (\<forall>b < next_list st1. list_objs st2 b = list_objs st1 b)
       \<and> (\<forall>(k, a') \<in> set its. L \<le> a' \<and> a' < next_list st2)
       \<and> map (\<lambda>(k, a). (k, list_objs st2 a)) its = map (\<lambda>(k, a). (k, list_objs st1 a)) rest"
      using None nl r rest1 memo1 L1 by (intro "2.IH"(1)) auto
    then have ih: "dict_objs st2 = dict_objs st1" "next_dict st2 = next_dict st1"
      "next_list st1 \<le> next_list st2"
      "\<forall>b < next_list st1. list_objs st2 b = list_objs st1 b"
      "\<forall>(k, a') \<in> set its. L \<le> a' \<and> a' < next_list st2"
      "map (\<lambda>(k, a). (k, list_objs st2 a)) its = map (\<lambda>(k, a). (k, list_objs st1 a)) rest"
      by auto
    have old: "list_objs st2 b = list_objs st b" if "b < next_list st" for b
      using that ih(4) p(2,4) by auto
    have n2: "list_objs st2 n = list_objs st a"
      using ih(4) p(1,2,3) by auto
    have "map (\<lambda>(k, a). (k, list_objs st1 a)) rest = map (\<lambda>(k, a). (k, list_objs st a)) rest"
      using rest p(4) by (auto intro!: map_cong)
    then show ?thesis
      unfolding e using ih p old n2 "2.prems"(4) by auto
  qed
qed

lemma deepcopy_props:
  assumes "deepcopy d st = (d', st')"
    and "\<forall>(k, a) \<in> set (dict_objs st d). a < next_list st"
  shows "d' = next_dict st" "next_dict st' = Suc (next_dict st)"
    "\<And>c. c \<noteq> next_dict st \<Longrightarrow> dict_objs st' c = dict_objs st c"
    "\<And>b. b < next_list st \<Longrightarrow> list_objs st' b = list_objs st b"
    "next_list st \<le> next_list st'"
    "\<forall>(k, a) \<in> set (dict_objs st' d'). next_list st \<le> a \<and> a < next_list st'"
    "d \<noteq> next_dict st \<Longrightarrow> contents st' d' = contents st d"
proof -
  obtain its st1 where r: "deepcopy_items [] (dict_objs st d) st = (its, st1)"
    by (cases "deepcopy_items [] (dict_objs st d) st")
  from deepcopy_items_props[OF r assms(2), of "next_list st"]
  have i: "dict_objs st1 = dict_objs st" "next_dict st1 = next_dict st"
    "next_list st \<le> next_list st1" "\<forall>b < next_list st. list_objs st1 b = list_objs st b"
    "\<forall>(k, a') \<in> set its. next_list st \<le> a' \<and> a' < next_list st1"
    "map (\<lambda>(k, a). (k, list_objs st1 a)) its = map (\<lambda>(k, a). (k, list_objs st a)) (dict_objs st d)"
    by auto
  from assms(1) r have e: "d' = next_dict st1"
    "st' = st1\<lparr>dict_objs := (dict_objs st1)(next_dict st1 := its), next_dict := Suc (next_dict st1)\<rparr>"
    by (auto simp: deepcopy_def new_dict_def)
  show "d' = next_dict st" "next_dict st' = Suc (next_dict st)"
    "\<And>c. c \<noteq> next_dict st \<Longrightarrow> dict_objs st' c = dict_objs st c"
    "\<And>b. b < next_list st \<Longrightarrow> list_objs st' b = list_objs st b"
    "next_list st \<le> next_list st'"
    "\<forall>(k, a) \<in> set (dict_objs st' d'). next_list st \<le> a \<and> a < next_list st'"
    "d \<noteq> next_dict st \<Longrightarrow> contents st' d' = contents st d"
    using i by (auto simp: e contents_def)
qed

lemma set_od_set: "set (od_set k v xs) \<subseteq> insert (k, v) (set xs)"
  by (induction xs) (auto split: if_splits)

lemma set_od_del: "set (od_del k xs) \<subseteq> set xs"
  by (auto simp: od_del_def)

lemma mutate_separate:
  assumes "mutate r m st = Inr st'"
    and "D \<le> r" "L \<le> next_list st" "\<forall>(k, a) \<in> set (dict_objs st r). L \<le> a"
  shows "L \<le> next_list st' \<and> (\<forall>(k, a) \<in> set (dict_objs st' r). L \<le> a)
       \<and> (\<forall>c < D. dict_objs st' c = dict_objs st c)
       \<and> (\<forall>b < L. list_objs st' b = list_objs st b)
       \<and> next_dict st' = next_dict st \<and> next_list st \<le> next_list st'"
proof (cases m)
  case (MSetItem k ls)
  with assms show ?thesis
    using set_od_set[of k "next_list st" "dict_objs st r"]
    by (auto simp: new_list_def Let_def)
next
  case (MDelItem k)
  with assms show ?thesis
    using set_od_del[of k "dict_objs st r"]
    by (auto split: option.splits)
next
  case (MAppend k l)
  with assms obtain a where a: "map_of (dict_objs st r) k = Some a"
    and e: "st' = st\<lparr>list_objs := (list_objs st)(a := list_objs st a @ [l])\<rparr>"
    by (auto split: option.splits)
  from a have "(k, a) \<in> set (dict_objs st r)" by (rule map_of_SomeD)
  with assms(4) have "L \<le> a" by auto
  with assms show ?thesis unfolding e by auto
next
  case MClear
  with assms show ?thesis by auto
qed

lemma mutate_all_separate:
  "D \<le> r \<Longrightarrow> L \<le> next_list st \<Longrightarrow> \<forall>(k, a) \<in> set (dict_objs st r). L \<le> a \<Longrightarrow>
     (\<forall>c < D. dict_objs (mutate_all r ms st) c = dict_objs st c)
   \<and> (\<forall>b < L. list_objs (mutate_all r ms st) b = list_objs st b)
   \<and> next_dict (mutate_all r ms st) = next_dict st
   \<and> next_list st \<le> next_list (mutate_all r ms st)"
proof (induction ms arbitrary: st)
  case Nil
  then show ?case by simp
next
  case (Cons m ms)
  show ?case
  proof (cases "mutate r m st")
    case (Inl e)
    with Cons.IH[OF Cons.prems] show ?thesis by simp
  next
    case (Inr st1)
    from mutate_separate[OF Inr Cons.prems]
    have s: "L \<le> next_list st1" "\<forall>(k, a) \<in> set (dict_objs st1 r). L \<le> a"
      "\<forall>c < D. dict_objs st1 c = dict_objs st c" "\<forall>b < L. list_objs st1 b = list_objs st b"
      "next_dict st1 = next_dict st" "next_list st \<le> next_list st1"
      by auto
    from Cons.IH[OF Cons.prems(1) s(1,2)] s Inr show ?thesis by auto
  qed
qed

lemma contents_same:
  assumes "dict_objs st' d = dict_objs st d"
    and "\<forall>(k, a) \<in> set (dict_objs st d). list_objs st' a = list_objs st a"
  shows "contents st' d = contents st d"
  using assms by (auto simp: contents_def intro!: map_cong)

lemma copy_is_separate:
  assumes wf: "well_formed q s"
    and d: "d = logs_ref q \<or> d = perf_logs_ref q"
    and c: "deepcopy d s = (r, s1)"
  shows "r \<noteq> logs_ref q" "r \<noteq> perf_logs_ref q"
    "contents s1 r = contents s d"
    "well_formed q s1"
    "contents s1 (logs_ref q) = contents s (logs_ref q)"
    "contents s1 (perf_logs_ref q) = contents s (perf_logs_ref q)"
    "contents (mutate_all r ms s1) (logs_ref q) = contents s (logs_ref q)"
    "contents (mutate_all r ms s1) (perf_logs_ref q) = contents s (perf_logs_ref q)"
    "well_formed q (mutate_all r ms s1)"
proof -
  from wf have l: "logs_ref q < next_dict s" and pl: "perf_logs_ref q < next_dict s"
    and la: "\<forall>(k, a) \<in> set (dict_objs s (logs_ref q)). a < next_list s"
    and pa: "\<forall>(k, a) \<in> set (dict_objs s (perf_logs_ref q)). a < next_list s"
    by (auto simp: well_formed_def)
  from d la pa have da: "\<forall>(k, a) \<in> set (dict_objs s d). a < next_list s" by auto
  from d l pl have dn: "d \<noteq> next_dict s" by auto
  note p = deepcopy_props[OF c da]
  show r1: "r \<noteq> logs_ref q" and r2: "r \<noteq> perf_logs_ref q"
    using p(1) l pl by auto
  show "contents s1 r = contents s d" using p(7)[OF dn] .
  have dl: "dict_objs s1 (logs_ref q) = dict_objs s (logs_ref q)"
    and dp: "dict_objs s1 (perf_logs_ref q) = dict_objs s (perf_logs_ref q)"
    using p(3) l pl by auto
  show w1: "well_formed q s1"
    using l pl la pa p(2,5) by (auto simp: well_formed_def dl dp)
  show c1: "contents s1 (logs_ref q) = contents s (logs_ref q)"
    by (rule contents_same[OF dl]) (use la p(4) in auto)
  show c2: "contents s1 (perf_logs_ref q) = contents s (perf_logs_ref q)"
    by (rule contents_same[OF dp]) (use pa p(4) in auto)
  have sep: "next_dict s \<le> r" "next_list s \<le> next_list s1"
    "\<forall>(k, a) \<in> set (dict_objs s1 r). next_list s \<le> a"
    using p(1,5,6) by auto
  note m = mutate_all_separate[OF sep, of ms]
  let ?s2 = "mutate_all r ms s1"
  have ml: "dict_objs ?s2 (logs_ref q) = dict_objs s1 (logs_ref q)"
    and mp: "dict_objs ?s2 (perf_logs_ref q) = dict_objs s1 (perf_logs_ref q)"
    using m l pl by auto
  have "contents ?s2 (logs_ref q) = contents s1 (logs_ref q)"
    by (rule contents_same[OF ml]) (use la m in \<open>auto simp: dl\<close>)
  then show "contents ?s2 (logs_ref q) = contents s (logs_ref q)" using c1 by simp
  have "contents ?s2 (perf_logs_ref q) = contents s1 (perf_logs_ref q)"
    by (rule contents_same[OF mp]) (use pa m in \<open>auto simp: dp\<close>)
  then show "contents ?s2 (perf_logs_ref q) = contents s (perf_logs_ref q)" using c2 by simp
  show "well_formed q ?s2"
    using w1 m p(2,5) l pl la pa
    by (auto simp: well_formed_def ml mp dl dp)
qed

lemma finalize_props:
  assumes wf: "well_formed p st" and f: "finalize p st = (p', st', ev)"
  shows "p' = p\<lparr>finalized := True\<rparr>" "well_formed p' st'"
    "contents st' (logs_ref p') = contents st (logs_ref p)"
    "contents st' (perf_logs_ref p') = contents st (perf_logs_ref p)"
proof -
  let ?q = "p\<lparr>finalized := True\<rparr>"
  have wq: "well_formed ?q st" using wf by (simp add: well_formed_def)
  obtain l st1 where c1: "deepcopy (logs_ref ?q) st = (l, st1)"
    by (cases "deepcopy (logs_ref ?q) st")
  obtain pl st2 where c2: "deepcopy (perf_logs_ref ?q) st1 = (pl, st2)"
    by (cases "deepcopy (perf_logs_ref ?q) st1")
  from f have e: "p' = ?q" "st' = st2"
    using c1 c2 by (auto simp: finalize_def logs_def perf_logs_def Let_def)
  note a = copy_is_separate[OF wq disjI1[OF refl] c1]
  note b = copy_is_separate[OF a(4) disjI2[OF refl] c2]
  show "p' = p\<lparr>finalized := True\<rparr>" by (rule e)
  show "well_formed p' st'" unfolding e by (rule b(4))
  show "contents st' (logs_ref p') = contents st (logs_ref p)"
    unfolding e using a(5) b(5) by simp
  show "contents st' (perf_logs_ref p') = contents st (perf_logs_ref p)"
    unfolding e using a(6) b(6) by simp
qed

text \<open>
  Claim C6.  \<^verbatim>\<open>finalize\<close> marks the presentation as finalized and leaves what its logs hold.
  On a finalized presentation the setters of \<^verbatim>\<open>status\<close>, \<^verbatim>\<open>step_text\<close> and
  \<^verbatim>\<open>step_summary_text\<close> fail their assertion.  A read of \<^verbatim>\<open>logs\<close> or \<^verbatim>\<open>perf_logs\<close> returns a
  dictionary that is not one of the two the presentation holds and that has the same
  content; whatever a caller then does with the returned dictionary (setting or deleting an
  entry, appending to the lines of an entry, clearing it), the logs and the performance
  logs of the presentation hold what they held.
\<close>

theorem finalized_presentation_is_frozen:
  "(well_formed p st \<and> finalize p st = (p', st', ev) \<longrightarrow>
      finalized p' \<and> well_formed p' st'
      \<and> contents st' (logs_ref p') = contents st (logs_ref p)
      \<and> contents st' (perf_logs_ref p') = contents st (perf_logs_ref p))
   \<and> (finalized q \<longrightarrow>
      set_status q v = Inl (AssertionError ''not self._finalized'')
      \<and> set_step_text q t = Inl (AssertionError ''not self._finalized'')
      \<and> set_step_summary_text q t = Inl (AssertionError ''not self._finalized''))
   \<and> (finalized q \<and> well_formed q s \<longrightarrow>
      (\<forall>r s1. logs q s = (r, s1) \<longrightarrow>
          r \<noteq> logs_ref q \<and> r \<noteq> perf_logs_ref q
        \<and> contents s1 r = contents s (logs_ref q)
        \<and> contents (mutate_all r ms s1) (logs_ref q) = contents s (logs_ref q)
        \<and> contents (mutate_all r ms s1) (perf_logs_ref q) = contents s (perf_logs_ref q)
        \<and> well_formed q (mutate_all r ms s1))
    \<and> (\<forall>r s1. perf_logs q s = (r, s1) \<longrightarrow>
          r \<noteq> logs_ref q \<and> r \<noteq> perf_logs_ref q
        \<and> contents s1 r = contents s (perf_logs_ref q)
        \<and> contents (mutate_all r ms s1) (logs_ref q) = contents s (logs_ref q)
        \<and> contents (mutate_all r ms s1) (perf_logs_ref q) = contents s (perf_logs_ref q)
        \<and> well_formed q (mutate_all r ms s1)))"
proof (intro conjI impI allI)
  assume a: "well_formed p st \<and> finalize p st = (p', st', ev)"
  then have wf: "well_formed p st" and f: "finalize p st = (p', st', ev)" by simp_all
  note fp = finalize_props[OF wf f]
  show "finalized p'" unfolding fp(1) by simp
  show "well_formed p' st'" by (rule fp(2))
  show "contents st' (logs_ref p') = contents st (logs_ref p)" by (rule fp(3))
  show "contents st' (perf_logs_ref p') = contents st (perf_logs_ref p)" by (rule fp(4))
next
  assume "finalized q"
  then show "set_status q v = Inl (AssertionError ''not self._finalized'')"
    "set_step_text q t = Inl (AssertionError ''not self._finalized'')"
    "set_step_summary_text q t = Inl (AssertionError ''not self._finalized'')"
    by (simp_all add: set_status_def set_step_text_def set_step_summary_text_def)
next
  fix r s1
  assume a: "finalized q \<and> well_formed q s" and l: "logs q s = (r, s1)"
  then have c: "deepcopy (logs_ref q) s = (r, s1)" by (simp add: logs_def)
  from a have wf: "well_formed q s" by simp
  note k = copy_is_separate[OF wf disjI1[OF refl] c]
  show "r \<noteq> logs_ref q" by (rule k(1))
  show "r \<noteq> perf_logs_ref q" by (rule k(2))
  show "contents s1 r = contents s (logs_ref q)" by (rule k(3))
  show "contents (mutate_all r ms s1) (logs_ref q) = contents s (logs_ref q)" by (rule k(7))
  show "contents (mutate_all r ms s1) (perf_logs_ref q) = contents s (perf_logs_ref q)"
    by (rule k(8))
  show "well_formed q (mutate_all r ms s1)" by (rule k(9))
next
  fix r s1
  assume a: "finalized q \<and> well_formed q s" and l: "perf_logs q s = (r, s1)"
  then have c: "deepcopy (perf_logs_ref q) s = (r, s1)" by (simp add: perf_logs_def)
  from a have wf: "well_formed q s" by simp
  note k = copy_is_separate[OF wf disjI2[OF refl] c]
  show "r \<noteq> logs_ref q" by (rule k(1))
  show "r \<noteq> perf_logs_ref q" by (rule k(2))
  show "contents s1 r = contents s (perf_logs_ref q)" by (rule k(3))
  show "contents (mutate_all r ms s1) (logs_ref q) = contents s (logs_ref q)" by (rule k(7))
  show "contents (mutate_all r ms s1) (perf_logs_ref q) = contents s (perf_logs_ref q)"
    by (rule k(8))
  show "well_formed q (mutate_all r ms s1)" by (rule k(9))
qed

text \<open>A presentation with one log of one line, finalized, read and then written to.\<close>

theorem finalized_presentation_is_frozen_witness:
  "\<exists>p' st' ev r s1.
     finalize
       \<lparr>finalized = False, logs_ref = 0, perf_logs_ref = 1, status = None,
         step_summary_text = None, step_text = None\<rparr>
       \<lparr>dict_objs = (\<lambda>a. [])(0 := [(''stdio'', 0)]), list_objs = (\<lambda>a. [])(0 := [''line'']),
         next_dict = 2, next_list = 1\<rparr> = (p', st', ev)
   \<and> set_status p' ''SUCCESS'' = Inl (AssertionError ''not self._finalized'')
   \<and> set_step_text p' ''text'' = Inl (AssertionError ''not self._finalized'')
   \<and> set_step_summary_text p' ''text'' = Inl (AssertionError ''not self._finalized'')
   \<and> logs p' st' = (r, s1)
   \<and> r \<noteq> logs_ref p'
   \<and> contents s1 r = [(''stdio'', [''line''])]
   \<and> contents (mutate_all r [MAppend ''stdio'' ''more'', MSetItem ''other'' [], MClear] s1)
         (logs_ref p') = [(''stdio'', [''line''])]"
proof -
  let ?p = "\<lparr>finalized = False, logs_ref = 0, perf_logs_ref = 1, status = None,
             step_summary_text = None, step_text = None\<rparr>"
  let ?s = "\<lparr>dict_objs = (\<lambda>a. [])(0 := [(''stdio'', 0::nat)]),
             list_objs = (\<lambda>a. [])(0 := [''line'']), next_dict = 2, next_list = 1\<rparr>"
  let ?ms = "[MAppend ''stdio'' ''more'', MSetItem ''other'' [], MClear]"
  have wf: "well_formed ?p ?s" by (simp add: well_formed_def)
  have c0: "contents ?s (logs_ref ?p) = [(''stdio'', [''line''])]"
    by (simp add: contents_def)
  obtain p' st' ev where f: "finalize ?p ?s = (p', st', ev)"
    by (cases "finalize ?p ?s")
  obtain r s1 where l: "logs p' st' = (r, s1)" by (cases "logs p' st'")
  note t = finalized_presentation_is_frozen
             [of ?p ?s p' st' ev p' "''SUCCESS''" "''text''" st' ?ms]
  from t wf f have a: "finalized p'" "well_formed p' st'"
    "contents st' (logs_ref p') = contents ?s (logs_ref ?p)"
    by blast+
  from t a(1) have b: "set_status p' ''SUCCESS'' = Inl (AssertionError ''not self._finalized'')"
    "set_step_text p' ''text'' = Inl (AssertionError ''not self._finalized'')"
    "set_step_summary_text p' ''text'' = Inl (AssertionError ''not self._finalized'')"
    by blast+
  from t a(1,2) l have c: "r \<noteq> logs_ref p'" "contents s1 r = contents st' (logs_ref p')"
    "contents (mutate_all r ?ms s1) (logs_ref p') = contents st' (logs_ref p')"
    by blast+
  show ?thesis
    using f b l c a(3) c0 by (intro exI[of _ p'] exI[of _ st'] exI[of _ ev] exI[of _ r] exI[of _ s1]) simp
qed

subsection \<open>Dictionaries as lists of items\<close>

lemma map_of_od_set_any: "map_of (od_set k v xs) k' = (if k' = k then Some v else map_of xs k')"
  by (induction xs) auto

lemma keys_od_set:
  "map fst (od_set k v xs) = (if k \<in> set (map fst xs) then map fst xs else map fst xs @ [k])"
  by (induction xs) force+

lemma distinct_od_set: "distinct (map fst xs) \<Longrightarrow> distinct (map fst (od_set k v xs))"
  by (simp add: keys_od_set)

lemma distinct_od_del: "distinct (map fst xs) \<Longrightarrow> distinct (map fst (od_del k xs))"
  by (simp add: od_del_def distinct_map_filter)

lemma map_of_od_del: "map_of (od_del k xs) k' = (if k' = k then None else map_of xs k')"
  by (induction xs) (auto simp: od_del_def)

lemma fold_od_set_new:
  "distinct (map fst (acc @ ps)) \<Longrightarrow> fold (\<lambda>(k, v). od_set k v) ps acc = acc @ ps"
proof (induction ps arbitrary: acc)
  case Nil
  then show ?case by simp
next
  case (Cons p ps)
  obtain k v where p: "p = (k, v)" by (cases p)
  from Cons.prems have "k \<notin> fst ` set acc" unfolding p by auto
  then have o: "od_set k v acc = acc @ [(k, v)]" by (rule od_set_new)
  from Cons.prems have "distinct (map fst ((acc @ [(k, v)]) @ ps))" unfolding p by simp
  from Cons.IH[OF this] show ?case unfolding p by (simp add: o)
qed

lemma dict_of_items_distinct: "distinct (map fst ps) \<Longrightarrow> dict_of_items ps = ps"
  unfolding dict_of_items_def using fold_od_set_new[of "[]" ps] by simp

lemma map_of_fold_od_set:
  "distinct (map fst ps) \<Longrightarrow>
     map_of (fold (\<lambda>(k, v). od_set k v) ps d) k =
       (case map_of ps k of Some v \<Rightarrow> Some v | None \<Rightarrow> map_of d k)"
proof (induction ps arbitrary: d)
  case Nil
  then show ?case by simp
next
  case (Cons p ps)
  obtain k' v' where p: "p = (k', v')" by (cases p)
  from Cons.prems have d: "distinct (map fst ps)" and n: "k' \<notin> fst ` set ps"
    unfolding p by auto
  from n have m: "map_of ps k' = None" by (simp add: map_of_eq_None_iff)
  show ?case
    unfolding p using Cons.IH[OF d, of "od_set k' v' d"] m
    by (auto simp: map_of_od_set_any split: option.splits)
qed

lemma distinct_fold_od_set:
  "distinct (map fst d) \<Longrightarrow> distinct (map fst (fold (\<lambda>(k, v). od_set k v) ps d))"
  by (induction ps arbitrary: d) (auto simp: distinct_od_set)

lemma distinct_fix_blamelist:
  "distinct (map fst b) \<Longrightarrow> distinct (map fst (fix_blamelist b))"
  by (auto simp: fix_blamelist_def distinct_od_del distinct_od_set split: option.splits)

lemma merged_is_merge:
  assumes "distinct (map fst build_properties)"
  shows "map_of (merged_properties build_properties factory_properties) k =
           spec_merge (fix_blamelist build_properties) factory_properties k"
  unfolding merged_properties_def dict_update_def spec_merge_def
  by (rule map_of_fold_od_set) (rule distinct_fix_blamelist[OF assms])

lemma distinct_merged:
  "distinct (map fst factory_properties) \<Longrightarrow>
     distinct (map fst (merged_properties build_properties factory_properties))"
  unfolding merged_properties_def dict_update_def by (rule distinct_fold_od_set)

subsection \<open>Freezing\<close>

lemma freeze_items_props:
  "freeze_items d = Inr fd \<Longrightarrow>
     map fst fd = map fst d
     \<and> (\<forall>k. map_of fd k = None \<longleftrightarrow> map_of d k = None)
     \<and> (\<forall>k v. map_of d k = Some v \<longrightarrow> (\<exists>fv. freeze v = Inr fv \<and> map_of fd k = Some fv))"
proof (induction d arbitrary: fd)
  case Nil
  then show ?case by simp
next
  case (Cons p d)
  obtain k v where p: "p = (k, v)" by (cases p)
  from Cons.prems obtain fv fr where
    f: "freeze v = Inr fv" "freeze_items d = Inr fr" "fd = (k, fv) # fr"
    unfolding p by (auto split: sum.splits)
  from Cons.IH[OF f(2)] f(1) show ?case unfolding f(3) p by auto
qed

lemma freeze_each_props:
  "freeze_each xs = Inr ys \<Longrightarrow>
     length ys = length xs \<and> (\<forall>i<length xs. freeze (xs ! i) = Inr (ys ! i))"
proof (induction xs arbitrary: ys)
  case Nil
  then show ?case by simp
next
  case (Cons x xs)
  from Cons.prems obtain fx fs where
    f: "freeze x = Inr fx" "freeze_each xs = Inr fs" "ys = fx # fs"
    by (auto split: sum.splits)
  from Cons.IH[OF f(2)] f(1) show ?case unfolding f(3) by (auto simp: nth_Cons split: nat.splits)
qed

lemma ImmutibleMapping_props:
  assumes "ImmutibleMapping fd = Inr m" "distinct (map fst fd)"
  shows "m = PImm fd" "\<forall>(k, v) \<in> set fd. isinstance_Hashable v"
  using assms
  by (auto simp: ImmutibleMapping_def dict_of_items_distinct list_all_iff split: if_splits)

lemma freeze_dict:
  assumes "freeze (PDict d) = Inr m" "distinct (map fst d)"
  shows "\<exists>fd. m = PImm fd \<and> map fst fd = map fst d
           \<and> (\<forall>(k, v) \<in> set fd. isinstance_Hashable v)
           \<and> (\<forall>k v. map_of d k = Some v \<longrightarrow> (\<exists>fv. freeze v = Inr fv))
           \<and> (\<forall>k. PropertiesApi_getitem m k =
                  (case map_of d k of None \<Rightarrow> Inl (KeyError k) | Some v \<Rightarrow> freeze v))"
proof -
  from assms(1) obtain fd where f: "freeze_items d = Inr fd" "ImmutibleMapping fd = Inr m"
    by (auto split: sum.splits)
  note p = freeze_items_props[OF f(1)]
  from p assms(2) have dk: "distinct (map fst fd)" by simp
  note i = ImmutibleMapping_props[OF f(2) dk]
  have "PropertiesApi_getitem m k =
          (case map_of d k of None \<Rightarrow> Inl (KeyError k) | Some v \<Rightarrow> freeze v)" for k
  proof (cases "map_of d k")
    case None
    with p have "map_of fd k = None" by simp
    with None show ?thesis by (simp add: PropertiesApi_getitem_def items_of_def i(1))
  next
    case (Some v)
    with p obtain fv where "freeze v = Inr fv" "map_of fd k = Some fv" by blast
    with Some show ?thesis by (simp add: PropertiesApi_getitem_def items_of_def i(1))
  qed
  moreover from p have "\<forall>k v. map_of d k = Some v \<longrightarrow> (\<exists>fv. freeze v = Inr fv)" by blast
  ultimately show ?thesis using p i by auto
qed

subsection \<open>The property bag\<close>

lemma property_bag_lookup:
  assumes "distinct (map fst build_properties)" "distinct (map fst factory_properties)"
    and "property_bag build_properties factory_properties = Inr bag"
  shows "\<exists>fd. bag = PImm fd
           \<and> map fst fd = map fst (merged_properties build_properties factory_properties)
           \<and> (\<forall>(k, v) \<in> set fd. isinstance_Hashable v)
           \<and> (\<forall>k v. spec_merge (fix_blamelist build_properties) factory_properties k = Some v
                  \<longrightarrow> (\<exists>fv. freeze v = Inr fv))
           \<and> (\<forall>k. PropertiesApi_getitem bag k =
                  (case spec_merge (fix_blamelist build_properties) factory_properties k of
                     None \<Rightarrow> Inl (KeyError k)
                   | Some v \<Rightarrow> freeze v))"
proof -
  let ?m = "merged_properties build_properties factory_properties"
  from assms(3) have f: "freeze (PDict ?m) = Inr bag"
    by (simp add: property_bag_def PropertiesApi_def)
  from freeze_dict[OF f distinct_merged[OF assms(2)]] show ?thesis
    unfolding merged_is_merge[OF assms(1)] .
qed

lemma freeze_list:
  "freeze (PList xs) = Inr r \<Longrightarrow>
     \<exists>ys. r = PTuple ys \<and> length ys = length xs \<and> (\<forall>i<length xs. freeze (xs ! i) = Inr (ys ! i))"
  using freeze_each_props by (auto split: sum.splits)

text \<open>
  Whatever the other properties are, a dictionary that is the value of a property keeps the
  bag from being built: \<^verbatim>\<open>freeze\<close> turns it into an \<^verbatim>\<open>ImmutibleMapping\<close>, and the assertion of
  the enclosing \<^verbatim>\<open>ImmutibleMapping\<close> refuses that value.
\<close>

lemma frozen_dict_not_Hashable:
  "freeze (PDict d) = Inr fv \<Longrightarrow> \<not> isinstance_Hashable fv"
  by (auto simp: ImmutibleMapping_def Let_def split: sum.splits if_splits)

lemma dict_value_is_rejected:
  assumes "distinct (map fst build_properties)" "distinct (map fst factory_properties)"
    and "spec_merge (fix_blamelist build_properties) factory_properties k = Some (PDict d)"
  shows "\<exists>e. property_bag build_properties factory_properties = Inl e"
proof (cases "property_bag build_properties factory_properties")
  case (Inl e)
  then show ?thesis by blast
next
  case (Inr bag)
  from property_bag_lookup[OF assms(1,2) Inr] obtain fd where
    b: "bag = PImm fd" and h: "\<forall>(k, v) \<in> set fd. isinstance_Hashable v"
    and ok0: "\<And>k v. spec_merge (fix_blamelist build_properties) factory_properties k = Some v
                \<Longrightarrow> \<exists>fv. freeze v = Inr fv"
    and g0: "\<And>k. PropertiesApi_getitem bag k =
                (case spec_merge (fix_blamelist build_properties) factory_properties k of
                   None \<Rightarrow> Inl (KeyError k)
                 | Some v \<Rightarrow> freeze v)"
    by blast
  from ok0[OF assms(3)] have ok: "\<exists>fv. freeze (PDict d) = Inr fv" .
  from g0[of k] have g: "PropertiesApi_getitem bag k = freeze (PDict d)"
    unfolding assms(3) by simp
  from ok obtain fv where fv: "freeze (PDict d) = Inr fv" by blast
  from g fv have "map_of fd k = Some fv"
    by (auto simp: PropertiesApi_getitem_def items_of_def b split: option.splits)
  then have "(k, fv) \<in> set fd" by (rule map_of_SomeD)
  with h have "isinstance_Hashable fv" by auto
  with frozen_dict_not_Hashable[OF fv] show ?thesis by simp
qed

text \<open>
  Build properties that have both \<^verbatim>\<open>'blamelist'\<close> and \<^verbatim>\<open>'blamelist_real'\<close> are rewritten by
  \<^verbatim>\<open>run_steps\<close> before the merge: the bag has the value of \<^verbatim>\<open>'blamelist_real'\<close> under
  \<^verbatim>\<open>'blamelist'\<close> and no key \<^verbatim>\<open>'blamelist_real'\<close>.
\<close>

lemma blamelist_rewrite:
  "property_bag [(''blamelist'', PList [PStr ''a'']), (''blamelist_real'', PList [PStr ''b''])]
     [(''recipe'', PStr ''r'')] =
       Inr (PImm [(''recipe'', PStr ''r''), (''blamelist'', PTuple [PStr ''b''])])"
  by code_simp

text \<open>
  Claim C8 says that the values the property bag stores are hashable, lists being frozen
  to tuples and nested dictionaries recursively.  \<^verbatim>\<open>freeze\<close> does turn the dictionary
  \<^verbatim>\<open>{'shards': 2}\<close> into an \<^verbatim>\<open>ImmutibleMapping\<close>, but an \<^verbatim>\<open>ImmutibleMapping\<close> is no instance of
  \<^verbatim>\<open>Hashable\<close>: the class derives from \<^verbatim>\<open>dict\<close> and defines no \<^verbatim>\<open>__hash__\<close>.  With the factory
  properties \<^verbatim>\<open>{'recipe': 'r', 'swarm': {'shards': 2}}\<close> and no build properties, the assertion
  in \<^verbatim>\<open>ImmutibleMapping.__init__\<close> therefore fails on the value that \<^verbatim>\<open>freeze\<close> has just made
  and no bag is built.  With \<^verbatim>\<open>{'recipe': 'r', 'swarm': [{'shards': 2}]}\<close> the bag is built, and
  the value it stores under \<^verbatim>\<open>'swarm'\<close> is a tuple that cannot be hashed.
\<close>

theorem nested_dict_breaks_property_bag:
  "freeze (PDict [(''shards'', PInt 2)]) = Inr (PImm [(''shards'', PInt 2)])
   \<and> isinstance_Hashable (PImm [(''shards'', PInt 2)]) = False
   \<and> property_bag [] [(''recipe'', PStr ''r''), (''swarm'', PDict [(''shards'', PInt 2)])] =
       Inl (AssertionError ''all(isinstance(v, collections.Hashable) ...)'')
   \<and> property_bag [] [(''recipe'', PStr ''r''), (''swarm'', PList [PDict [(''shards'', PInt 2)]])] =
       Inr (PImm [(''recipe'', PStr ''r''), (''swarm'', PTuple [PImm [(''shards'', PInt 2)]])])
   \<and> hashable (PTuple [PImm [(''shards'', PInt 2)]]) = False"
  by code_simp

subsection \<open>New presentations\<close>

lemma StepPresentation_well_formed:
  "StepPresentation st = (p, st') \<Longrightarrow> well_formed p st' \<and> \<not> finalized p"
  by (auto simp: StepPresentation_def new_dict_def well_formed_def Let_def)

end
